theory Spec2Isabelle
  imports Main "HOL-Library.Sublist" "HOL-Library.AList"
begin

section \<open>JavaScript string methods used by the server\<close>

text \<open>
  Strings are \<open>char list\<close>s. Case folding is modelled on the ASCII letters, which is
  what \<open>String.prototype.toLowerCase\<close> does on ASCII text.
\<close>

definition startsWith :: "string \<Rightarrow> string \<Rightarrow> bool" where
  "startsWith s p = prefix p s"

definition endsWith :: "string \<Rightarrow> string \<Rightarrow> bool" where
  "endsWith s p = prefix (rev p) (rev s)"

fun includes_str :: "string \<Rightarrow> string \<Rightarrow> bool" where
  "includes_str [] q = (q = [])"
| "includes_str (c # s) q = (if prefix q (c # s) then True else includes_str s q)"

definition toLowerChar :: "char \<Rightarrow> char" where
  "toLowerChar c =
     (case map_of (zip ''ABCDEFGHIJKLMNOPQRSTUVWXYZ'' ''abcdefghijklmnopqrstuvwxyz'') c of
        None \<Rightarrow> c
      | Some l \<Rightarrow> l)"

definition toLowerCase :: "string \<Rightarrow> string" where
  "toLowerCase s = map toLowerChar s"

text \<open>\<open>s.split(c)\<close> for a one-character separator: never the empty list.\<close>

fun split_str :: "char \<Rightarrow> string \<Rightarrow> string list" where
  "split_str c [] = [[]]"
| "split_str c (x # xs) =
     (if x = c then [] # split_str c xs
      else (case split_str c xs of [] \<Rightarrow> [[x]] | s # ss \<Rightarrow> (x # s) # ss))"

text \<open>\<open>parts.join(d)\<close>.\<close>

fun joinWith :: "string \<Rightarrow> string list \<Rightarrow> string" where
  "joinWith d [] = []"
| "joinWith d [s] = s"
| "joinWith d (s # t # ss) = s @ d @ joinWith d (t # ss)"

text \<open>\<open>s.replace(pat, "")\<close> with a string pattern: the first occurrence is removed.\<close>

fun removeFirst :: "string \<Rightarrow> string \<Rightarrow> string" where
  "removeFirst [] pat = []"
| "removeFirst (c # s) pat =
     (if prefix pat (c # s) then drop (length pat) (c # s) else c # removeFirst s pat)"

text \<open>\<open>query.replace(/[*]/g, ".*")\<close>.\<close>

definition replaceStars :: "string \<Rightarrow> string" where
  "replaceStars q = concat (map (\<lambda>c. if c = CHR ''*'' then ''.*'' else [c]) q)"

text \<open>Decimal rendering of a number inside a template literal.\<close>

definition digitChar :: "nat \<Rightarrow> char" where
  "digitChar d = ''0123456789'' ! d"

fun showDigits :: "nat \<Rightarrow> nat \<Rightarrow> string" where
  "showDigits 0 n = []"
| "showDigits (Suc k) n =
     (if n < 10 then [digitChar n] else showDigits k (n div 10) @ [digitChar (n mod 10)])"

definition showNat :: "nat \<Rightarrow> string" where
  "showNat n = showDigits (Suc n) n"



section \<open>The \<open>path\<close> module (POSIX flavour)\<close>

definition path_sep :: char where
  "path_sep = CHR ''/''"

definition path_isAbsolute :: "string \<Rightarrow> bool" where
  "path_isAbsolute p = (case p of [] \<Rightarrow> False | c # _ \<Rightarrow> c = path_sep)"

text \<open>
  \<open>normalizeString\<close> of the path module, on segments: empty and \<open>.\<close> segments are
  dropped, \<open>..\<close> removes the segment before it, and is kept only in a relative path
  that has nothing left to remove.
\<close>

fun normalizeSegments :: "bool \<Rightarrow> string list \<Rightarrow> string list \<Rightarrow> string list" where
  "normalizeSegments allowAboveRoot res [] = res"
| "normalizeSegments allowAboveRoot res (s # ss) =
     (if s = [] \<or> s = ''.'' then normalizeSegments allowAboveRoot res ss
      else if s = ''..'' then
        (if res \<noteq> [] \<and> last res \<noteq> ''..'' then normalizeSegments allowAboveRoot (butlast res) ss
         else if allowAboveRoot then normalizeSegments allowAboveRoot (res @ [''..'']) ss
         else normalizeSegments allowAboveRoot res ss)
      else normalizeSegments allowAboveRoot (res @ [s]) ss)"

definition normalizeString :: "string \<Rightarrow> bool \<Rightarrow> string" where
  "normalizeString p allowAboveRoot =
     joinWith [path_sep] (normalizeSegments allowAboveRoot [] (split_str path_sep p))"

definition path_normalize :: "string \<Rightarrow> string" where
  "path_normalize p =
     (if p = [] then ''.''
      else
        let isAbs = path_isAbsolute p;
            trailingSeparator = (last p = path_sep);
            path = normalizeString p (\<not> isAbs)
        in if path = [] then (if isAbs then ''/'' else if trailingSeparator then ''./'' else ''.'')
           else (if isAbs then ''/'' else []) @ path @ (if trailingSeparator then ''/'' else []))"

text \<open>
  \<open>path.resolve(...args)\<close>: the arguments are taken from the right until an absolute
  one is found; the working directory comes last.
\<close>

fun resolveLoop :: "string list \<Rightarrow> string \<Rightarrow> string \<times> bool" where
  "resolveLoop [] resolvedPath = (resolvedPath, False)"
| "resolveLoop (p # ps) resolvedPath =
     (if p = [] then resolveLoop ps resolvedPath
      else if path_isAbsolute p then (p @ [path_sep] @ resolvedPath, True)
      else resolveLoop ps (p @ [path_sep] @ resolvedPath))"

definition path_resolve :: "string \<Rightarrow> string list \<Rightarrow> string" where
  "path_resolve cwd args =
     (case resolveLoop (rev args @ [cwd]) [] of
        (resolvedPath, resolvedAbsolute) \<Rightarrow>
          let r = normalizeString resolvedPath (\<not> resolvedAbsolute)
          in if resolvedAbsolute then path_sep # r else if r \<noteq> [] then r else ''.'')"

definition path_join :: "string list \<Rightarrow> string" where
  "path_join args =
     (case filter (\<lambda>a. a \<noteq> []) args of
        [] \<Rightarrow> ''.''
      | joined \<Rightarrow> path_normalize (joinWith [path_sep] joined))"

text \<open>
  \<open>path.dirname\<close>: trailing separators are skipped, then the last segment; the scan
  stops before the first character.
\<close>

definition path_dirname :: "string \<Rightarrow> string" where
  "path_dirname p =
     (case p of
        [] \<Rightarrow> ''.''
      | c # t \<Rightarrow>
          let hasRoot = (c = path_sep);
              r1 = dropWhile (\<lambda>x. x = path_sep) (rev t);
              r2 = dropWhile (\<lambda>x. x \<noteq> path_sep) r1
          in (case r2 of
                [] \<Rightarrow> (if hasRoot then ''/'' else ''.'')
              | _ # front \<Rightarrow>
                  if hasRoot \<and> front = [] then ''//'' else c # rev front))"

section \<open>Process environment and configuration\<close>

text \<open>
  \<open>os.homedir()\<close>, \<open>process.cwd()\<close> and the regular-expression engine are supplied
  by the platform. \<open>regexTest pattern name\<close> stands for
  \<open>new RegExp(pattern, "i").test(name)\<close>; it is \<open>None\<close> when the constructor throws
  on an invalid pattern.
\<close>

record environment =
  homedir :: string
  cwd :: string
  regexTest :: "string \<Rightarrow> string \<Rightarrow> bool option"

record ServerConfig =
  vaultPath :: string
  enableWrite :: bool

definition SEARCH_LIMIT :: nat where
  "SEARCH_LIMIT = 200"

definition normalizePath :: "string \<Rightarrow> string" where
  "normalizePath p = toLowerCase (path_normalize p)"

definition expandHome :: "environment \<Rightarrow> string \<Rightarrow> string" where
  "expandHome env filepath =
     (if startsWith filepath ''~/'' \<or> filepath = ''~''
      then path_join [homedir env, drop 1 filepath]
      else filepath)"

definition vaultDirectories :: "environment \<Rightarrow> ServerConfig \<Rightarrow> string list" where
  "vaultDirectories env config =
     [normalizePath (path_resolve (cwd env) [expandHome env (vaultPath config)])]"

section \<open>Errors\<close>

text \<open>
  One constructor for each \<open>throw new Error(...)\<close> of the program, named after the
  denial reasons of the specification, and one for an exception of the \<open>fs\<close> module
  (\<open>SystemError call path\<close>). The message of a system error and the detail that follows
  \<open>Invalid arguments\<close> are the platform's; \<open>error_message\<close> gives them a fixed form.
\<close>

datatype error =
    HiddenPathDenied
  | OutsideVault string "string list"
  | SymlinkEscape
  | ParentOutsideVault
  | ParentMissing string
  | SystemError string string
  | WriteDisabled
  | ExtensionRequired
  | InvalidArguments string
  | UnknownTool string

fun error_message :: "error \<Rightarrow> string" where
  "error_message HiddenPathDenied = ''Access denied - hidden files/directories not allowed''"
| "error_message (OutsideVault absolute dirs) =
     ''Access denied - path outside allowed directories: '' @ absolute @ '' not in '' @
     joinWith '', '' dirs"
| "error_message SymlinkEscape = ''Access denied - symlink target outside allowed directories''"
| "error_message ParentOutsideVault =
     ''Access denied - parent directory outside allowed directories''"
| "error_message (ParentMissing parentDir) = ''Parent directory does not exist: '' @ parentDir"
| "error_message (SystemError call p) = call @ '' failed: '' @ p"
| "error_message WriteDisabled =
     ''Write operations are disabled. Start the server with --enable-write to enable them.''"
| "error_message ExtensionRequired = ''Note path must end with .md extension''"
| "error_message (InvalidArguments tool) = ''Invalid arguments for '' @ tool"
| "error_message (UnknownTool name) = ''Unknown tool: '' @ name"

section \<open>The file system\<close>

text \<open>
  A file system is a table from the segments of an absolute path to the node stored there;
  the root directory \<open>[]\<close> always exists. The world pairs it with the sequence of
  \<open>fs\<close> calls issued so far, so that which paths reach the file system can be stated.
\<close>

datatype node = File string | Dir | Symlink string

type_synonym filesystem = "(string list \<times> node) list"

datatype fs_call =
    Realpath string
  | Readdir string
  | ReadFile string
  | WriteFile string string
  | Access string
  | Mkdir string

record world =
  files :: filesystem
  calls :: "fs_call list"

definition node_at :: "filesystem \<Rightarrow> string list \<Rightarrow> node option" where
  "node_at fs k = (if k = [] then Some Dir else map_of fs k)"

definition render :: "string list \<Rightarrow> string" where
  "render k = path_sep # joinWith [path_sep] k"

text \<open>
  Path resolution as the kernel does it: one segment at a time from the root, following a
  symbolic link where one is met. \<open>n\<close> bounds the links followed (\<open>ELOOP\<close> beyond it).
\<close>

fun walk :: "filesystem \<Rightarrow> nat \<Rightarrow> string list \<Rightarrow> string list \<Rightarrow> string list option" where
  "walk fs n cur [] = Some cur"
| "walk fs n cur (s # rest) =
     (case node_at fs cur of
        Some Dir \<Rightarrow>
          if s = [] \<or> s = ''.'' then walk fs n cur rest
          else if s = ''..'' then walk fs n (butlast cur) rest
          else
            (case node_at fs (cur @ [s]) of
               None \<Rightarrow> None
             | Some (Symlink target) \<Rightarrow>
                 (case n of
                    0 \<Rightarrow> None
                  | Suc m \<Rightarrow>
                      walk fs m (if path_isAbsolute target then [] else cur)
                        (split_str path_sep target @ rest))
             | Some _ \<Rightarrow> walk fs n (cur @ [s]) rest)
      | _ \<Rightarrow> None)"

definition SYMLOOP_MAX :: nat where
  "SYMLOOP_MAX = 40"

definition lookup_path :: "environment \<Rightarrow> filesystem \<Rightarrow> string \<Rightarrow> string list option" where
  "lookup_path env fs p = walk fs SYMLOOP_MAX [] (split_str path_sep (path_resolve (cwd env) [p]))"

definition fs_realpath :: "environment \<Rightarrow> world \<Rightarrow> string \<Rightarrow> (error + string) \<times> world" where
  "fs_realpath env w p =
     ((case lookup_path env (files w) p of
         None \<Rightarrow> Inl (SystemError ''realpath'' p)
       | Some k \<Rightarrow> Inr (render k)),
      w\<lparr>calls := calls w @ [Realpath p]\<rparr>)"

section \<open>The confinement validator\<close>

definition isWithinVault :: "environment \<Rightarrow> ServerConfig \<Rightarrow> string \<Rightarrow> bool" where
  "isWithinVault env config normalized =
     list_ex (\<lambda>dir. startsWith normalized dir) (vaultDirectories env config)"

text \<open>
  The handler of the outer \<open>try\<close> of \<open>validatePath\<close>. Its own \<open>try\<close> block yields
  either the path or the exception raised in it; the \<open>catch\<close> without a binding replaces
  every exception of that block by \<open>ParentMissing\<close>.
\<close>

definition validateParent ::
  "environment \<Rightarrow> ServerConfig \<Rightarrow> world \<Rightarrow> string \<Rightarrow> (error + string) \<times> world" where
  "validateParent env config w absolute =
     (let parentDir = path_dirname absolute in
      case
        (case fs_realpath env w parentDir of
           (Inl e, w1) \<Rightarrow> (Inl e, w1)
         | (Inr realParentPath, w1) \<Rightarrow>
             let normalizedParent = normalizePath realParentPath;
                 isParentAllowed = isWithinVault env config normalizedParent
             in if \<not> isParentAllowed then (Inl ParentOutsideVault, w1)
                else (Inr absolute, w1))
      of
        (Inl _, w1) \<Rightarrow> (Inl (ParentMissing parentDir), w1)
      | (Inr p, w1) \<Rightarrow> (Inr p, w1))"

definition hasHiddenPart :: "string \<Rightarrow> bool" where
  "hasHiddenPart requestedPath =
     (let pathParts = split_str path_sep requestedPath
      in list_ex (\<lambda>part. startsWith part ''.'') pathParts)"

definition absolutePath :: "environment \<Rightarrow> string \<Rightarrow> string" where
  "absolutePath env requestedPath =
     (let expandedPath = expandHome env requestedPath
      in if path_isAbsolute expandedPath then path_resolve (cwd env) [expandedPath]
         else path_resolve (cwd env) [cwd env, expandedPath])"

text \<open>
  \<open>validatePath\<close>. The \<open>try\<close> block around \<open>fs.realpath\<close> yields the real path or
  the exception raised in it, the \<open>SymlinkEscape\<close> error included; its \<open>catch\<close> runs
  the parent check on every exception.
\<close>

definition validatePath ::
  "environment \<Rightarrow> ServerConfig \<Rightarrow> world \<Rightarrow> string \<Rightarrow> (error + string) \<times> world" where
  "validatePath env config w requestedPath =
     (if hasHiddenPart requestedPath then (Inl HiddenPathDenied, w)
      else
        let absolute = absolutePath env requestedPath;
            normalizedRequested = normalizePath absolute;
            isAllowed = isWithinVault env config normalizedRequested
        in if \<not> isAllowed
           then (Inl (OutsideVault absolute (vaultDirectories env config)), w)
           else
             (case
                (case fs_realpath env w absolute of
                   (Inl e, w1) \<Rightarrow> (Inl e, w1)
                 | (Inr realPath, w1) \<Rightarrow>
                     let normalizedReal = normalizePath realPath;
                         isRealPathAllowed = isWithinVault env config normalizedReal
                     in if \<not> isRealPathAllowed then (Inl SymlinkEscape, w1)
                        else (Inr realPath, w1))
              of
                (Inl _, w1) \<Rightarrow> validateParent env config w1 absolute
              | (Inr realPath, w1) \<Rightarrow> (Inr realPath, w1)))"

section \<open>Reading, writing and listing\<close>

definition fs_readFile :: "environment \<Rightarrow> world \<Rightarrow> string \<Rightarrow> (error + string) \<times> world" where
  "fs_readFile env w p =
     ((case lookup_path env (files w) p of
         None \<Rightarrow> Inl (SystemError ''open'' p)
       | Some k \<Rightarrow>
           (case node_at (files w) k of
              Some (File content) \<Rightarrow> Inr content
            | _ \<Rightarrow> Inl (SystemError ''read'' p))),
      w\<lparr>calls := calls w @ [ReadFile p]\<rparr>)"

text \<open>
  \<open>fs.writeFile\<close> replaces the content of the file the path resolves to; where the path
  resolves to nothing it creates the file in the resolved parent directory, which has to
  exist. A name that is taken by a dangling link is reported as an error here.
\<close>

definition store :: "filesystem \<Rightarrow> string list \<Rightarrow> node \<Rightarrow> filesystem" where
  "store fs k v = AList.update k v fs"

definition fs_writeFile ::
  "environment \<Rightarrow> world \<Rightarrow> string \<Rightarrow> string \<Rightarrow> (error + unit) \<times> world" where
  "fs_writeFile env w p content =
     (let w1 = w\<lparr>calls := calls w @ [WriteFile p content]\<rparr> in
      case lookup_path env (files w) p of
        Some k \<Rightarrow>
          (case node_at (files w) k of
             Some (File _) \<Rightarrow> (Inr (), w1\<lparr>files := store (files w) k (File content)\<rparr>)
           | _ \<Rightarrow> (Inl (SystemError ''open'' p), w1))
      | None \<Rightarrow>
          (let absolute = path_resolve (cwd env) [p];
               base = last (split_str path_sep absolute)
           in case lookup_path env (files w) (path_dirname absolute) of
                None \<Rightarrow> (Inl (SystemError ''open'' p), w1)
              | Some d \<Rightarrow>
                  if node_at (files w) d = Some Dir \<and> node_at (files w) (d @ [base]) = None
                  then (Inr (), w1\<lparr>files := store (files w) (d @ [base]) (File content)\<rparr>)
                  else (Inl (SystemError ''open'' p), w1)))"

record Dirent =
  name :: string
  isDirectory :: bool

definition fs_readdir :: "environment \<Rightarrow> world \<Rightarrow> string \<Rightarrow> (error + Dirent list) \<times> world" where
  "fs_readdir env w p =
     ((case lookup_path env (files w) p of
         None \<Rightarrow> Inl (SystemError ''scandir'' p)
       | Some d \<Rightarrow>
           if node_at (files w) d = Some Dir
           then Inr (remdups
                  (map (\<lambda>(k, v). \<lparr>name = last k, isDirectory = (v = Dir)\<rparr>)
                     (filter (\<lambda>(k, v). k \<noteq> [] \<and> butlast k = d \<and> map_of (files w) k = Some v)
                        (files w))))
           else Inl (SystemError ''scandir'' p)),
      w\<lparr>calls := calls w @ [Readdir p]\<rparr>)"

definition fs_access :: "environment \<Rightarrow> world \<Rightarrow> string \<Rightarrow> (error + unit) \<times> world" where
  "fs_access env w p =
     ((case lookup_path env (files w) p of
         None \<Rightarrow> Inl (SystemError ''access'' p)
       | Some _ \<Rightarrow> Inr ()),
      w\<lparr>calls := calls w @ [Access p]\<rparr>)"

text \<open>\<open>fs.mkdir(p, { recursive: true })\<close>: every missing directory on the way is created.\<close>

fun mkdirs :: "filesystem \<Rightarrow> string list \<Rightarrow> string list \<Rightarrow> filesystem option" where
  "mkdirs fs cur [] = Some fs"
| "mkdirs fs cur (s # rest) =
     (case walk fs SYMLOOP_MAX cur [s] of
        Some k \<Rightarrow> if node_at fs k = Some Dir then mkdirs fs k rest else None
      | None \<Rightarrow>
          if node_at fs (cur @ [s]) = None then mkdirs (store fs (cur @ [s]) Dir) (cur @ [s]) rest
          else None)"

definition fs_mkdir :: "environment \<Rightarrow> world \<Rightarrow> string \<Rightarrow> (error + unit) \<times> world" where
  "fs_mkdir env w p =
     (let w1 = w\<lparr>calls := calls w @ [Mkdir p]\<rparr> in
      case mkdirs (files w) [] (split_str path_sep (path_resolve (cwd env) [p])) of
        None \<Rightarrow> (Inl (SystemError ''mkdir'' p), w1)
      | Some fs' \<Rightarrow> (Inr (), w1\<lparr>files := fs'\<rparr>))"

definition ensureDirectory :: "environment \<Rightarrow> world \<Rightarrow> string \<Rightarrow> (error + unit) \<times> world" where
  "ensureDirectory env w dirPath =
     (case fs_access env w dirPath of
        (Inr _, w1) \<Rightarrow> (Inr (), w1)
      | (Inl _, w1) \<Rightarrow> fs_mkdir env w1 dirPath)"

text \<open>
  The start-up check of the vault directory (\<open>fs.stat\<close> of the path as configured).
\<close>

definition vaultIsDirectory :: "environment \<Rightarrow> filesystem \<Rightarrow> ServerConfig \<Rightarrow> bool" where
  "vaultIsDirectory env fs config =
     (case lookup_path env fs (vaultPath config) of
        None \<Rightarrow> False
      | Some k \<Rightarrow> node_at fs k = Some Dir)"

section \<open>The recursive search\<close>

definition nameMatches :: "environment \<Rightarrow> string \<Rightarrow> string \<Rightarrow> bool" where
  "nameMatches env query entryName =
     (let matches = includes_str (toLowerCase entryName) (toLowerCase query)
      in if matches then True
         else (case regexTest env (replaceStars query) entryName of
                 None \<Rightarrow> matches
               | Some b \<Rightarrow> b))"

text \<open>
  \<open>search\<close> and the loop over the entries of one directory. The state is the world and
  the shared \<open>results\<close> array. An exception inside the loop body (a denied path, a failed
  \<open>readdir\<close> of a subdirectory) is caught by the body's \<open>try\<close> and the loop continues;
  only the \<open>readdir\<close> at the start of \<open>search\<close> lets an exception out. The first
  argument bounds the depth of the recursion; \<open>None\<close> says the bound was reached.
\<close>

function (sequential) search ::
  "nat \<Rightarrow> environment \<Rightarrow> ServerConfig \<Rightarrow> string \<Rightarrow> string \<Rightarrow> string \<Rightarrow> world \<Rightarrow> string list \<Rightarrow>
   ((error + unit) \<times> world \<times> string list) option"
and searchEntries ::
  "nat \<Rightarrow> environment \<Rightarrow> ServerConfig \<Rightarrow> string \<Rightarrow> string \<Rightarrow> string \<Rightarrow> Dirent list \<Rightarrow>
   world \<Rightarrow> string list \<Rightarrow> ((error + unit) \<times> world \<times> string list) option"
where
  "search 0 env config query basePath currentPath w results = None"
| "search (Suc depth) env config query basePath currentPath w results =
     (case fs_readdir env w currentPath of
        (Inl e, w1) \<Rightarrow> Some (Inl e, w1, results)
      | (Inr entries, w1) \<Rightarrow>
          searchEntries depth env config query basePath currentPath entries w1 results)"
| "searchEntries depth env config query basePath currentPath [] w results =
     Some (Inr (), w, results)"
| "searchEntries depth env config query basePath currentPath (entry # entries) w results =
     (let fullPath = path_join [currentPath, name entry] in
      case validatePath env config w fullPath of
        (Inl _, w1) \<Rightarrow>
          searchEntries depth env config query basePath currentPath entries w1 results
      | (Inr _, w1) \<Rightarrow>
          let matches = nameMatches env query (name entry);
              results1 = (if endsWith (name entry) ''.md'' \<and> matches
                          then results @ [removeFirst fullPath basePath] else results)
          in if isDirectory entry
             then (case search depth env config query basePath fullPath w1 results1 of
                     None \<Rightarrow> None
                   | Some (_, w2, results2) \<Rightarrow>
                       searchEntries depth env config query basePath currentPath entries
                         w2 results2)
             else searchEntries depth env config query basePath currentPath entries
                    w1 results1)"
  by pat_completeness auto
termination
  by (relation "inv_image (less_than <*lex*> less_than)
        (\<lambda>x. case x of
           Inl (depth, _) \<Rightarrow> (depth, 0)
         | Inr (depth, env, config, query, basePath, currentPath, entries, _) \<Rightarrow>
             (depth, Suc (length entries)))") auto

text \<open>
  \<open>searchNotes\<close>: one \<open>search\<close> for each vault directory, all writing to \<open>results\<close>;
  \<open>Promise.all\<close> rejects with the failure of a search.
\<close>

fun searchRoots ::
  "nat \<Rightarrow> environment \<Rightarrow> ServerConfig \<Rightarrow> string \<Rightarrow> string list \<Rightarrow> world \<Rightarrow> string list \<Rightarrow>
   ((error + unit) \<times> world \<times> string list) option" where
  "searchRoots depth env config query [] w results = Some (Inr (), w, results)"
| "searchRoots depth env config query (dir # dirs) w results =
     (case search depth env config query dir dir w results of
        None \<Rightarrow> None
      | Some (Inl e, w1, results1) \<Rightarrow> Some (Inl e, w1, results1)
      | Some (Inr _, w1, results1) \<Rightarrow> searchRoots depth env config query dirs w1 results1)"

definition searchNotes ::
  "nat \<Rightarrow> environment \<Rightarrow> ServerConfig \<Rightarrow> world \<Rightarrow> string \<Rightarrow> ((error + string list) \<times> world) option" where
  "searchNotes depth env config w query =
     (case searchRoots depth env config query (vaultDirectories env config) w [] of
        None \<Rightarrow> None
      | Some (Inl e, w1, results) \<Rightarrow> Some (Inl e, w1)
      | Some (Inr _, w1, results) \<Rightarrow> Some (Inr results, w1))"

section \<open>The tool handlers\<close>

datatype UpdateMode = Replace | Append | Prepend

text \<open>
  A request is the tool name with its arguments as the schema of the tool parsed them;
  \<open>Malformed name\<close> is a call of a known tool whose arguments the schema rejects.
\<close>

datatype request =
    ReadNotes "string list"
  | SearchNotes string
  | WriteNote string string bool
  | UpdateNote string string UpdateMode
  | Malformed string
  | OtherTool string

record response =
  responseText :: string
  isError :: bool

definition success :: "string \<Rightarrow> response" where
  "success t = \<lparr>responseText = t, isError = False\<rparr>"

definition failure :: "error \<Rightarrow> response" where
  "failure e = \<lparr>responseText = ''Error: '' @ error_message e, isError = True\<rparr>"

definition toolName :: "request \<Rightarrow> string" where
  "toolName r =
     (case r of
        ReadNotes _ \<Rightarrow> ''read_notes''
      | SearchNotes _ \<Rightarrow> ''search_notes''
      | WriteNote _ _ _ \<Rightarrow> ''write_note''
      | UpdateNote _ _ _ \<Rightarrow> ''update_note''
      | Malformed n \<Rightarrow> n
      | OtherTool n \<Rightarrow> n)"

text \<open>
  One element of the \<open>read_notes\<close> batch: a failure becomes the text of its slot. The
  elements only read, so the batch is run one element after the other.
\<close>

definition readNote :: "environment \<Rightarrow> ServerConfig \<Rightarrow> world \<Rightarrow> string \<Rightarrow> string \<times> world" where
  "readNote env config w filePath =
     (case validatePath env config w (path_join [vaultDirectories env config ! 0, filePath]) of
        (Inl e, w1) \<Rightarrow> (filePath @ '': Error - '' @ error_message e, w1)
      | (Inr validPath, w1) \<Rightarrow>
          (case fs_readFile env w1 validPath of
             (Inl e, w2) \<Rightarrow> (filePath @ '': Error - '' @ error_message e, w2)
           | (Inr content, w2) \<Rightarrow> (filePath @ '':'' @ [CHR 0x0A] @ content @ [CHR 0x0A], w2)))"

fun readNotes :: "environment \<Rightarrow> ServerConfig \<Rightarrow> world \<Rightarrow> string list \<Rightarrow> string list \<times> world" where
  "readNotes env config w [] = ([], w)"
| "readNotes env config w (filePath # paths) =
     (case readNote env config w filePath of
        (r, w1) \<Rightarrow> (case readNotes env config w1 paths of (rs, w2) \<Rightarrow> (r # rs, w2)))"

definition read_notes :: "environment \<Rightarrow> ServerConfig \<Rightarrow> world \<Rightarrow> string list \<Rightarrow> (error + string) \<times> world" where
  "read_notes env config w paths =
     (case readNotes env config w paths of
        (results, w1) \<Rightarrow> (Inr (joinWith ([CHR 0x0A] @ ''---'' @ [CHR 0x0A]) results), w1))"

definition search_notes ::
  "nat \<Rightarrow> environment \<Rightarrow> ServerConfig \<Rightarrow> world \<Rightarrow> string \<Rightarrow> ((error + string) \<times> world) option" where
  "search_notes depth env config w query =
     (case searchNotes depth env config w query of
        None \<Rightarrow> None
      | Some (Inl e, w1) \<Rightarrow> Some (Inl e, w1)
      | Some (Inr results, w1) \<Rightarrow>
          let limitedResults = take SEARCH_LIMIT results
          in Some (Inr ((if length limitedResults > 0 then joinWith [CHR 0x0A] limitedResults
                         else ''No matches found'') @
                        (if length results > SEARCH_LIMIT
                         then [CHR 0x0A, CHR 0x0A] @ ''... '' @
                              showNat (length results - SEARCH_LIMIT) @ '' more results not shown.''
                         else [])),
                   w1))"

definition write_note ::
  "environment \<Rightarrow> ServerConfig \<Rightarrow> world \<Rightarrow> string \<Rightarrow> string \<Rightarrow> bool \<Rightarrow> (error + string) \<times> world" where
  "write_note env config w notePath content createDirectories =
     (if \<not> endsWith notePath ''.md'' then (Inl ExtensionRequired, w)
      else
        let fullPath = path_join [vaultDirectories env config ! 0, notePath] in
        case validatePath env config w fullPath of
          (Inl e, w1) \<Rightarrow> (Inl e, w1)
        | (Inr validPath, w1) \<Rightarrow>
            (case (if createDirectories then ensureDirectory env w1 (path_dirname validPath)
                   else (Inr (), w1)) of
               (Inl e, w2) \<Rightarrow> (Inl e, w2)
             | (Inr _, w2) \<Rightarrow>
                 (case fs_writeFile env w2 validPath content of
                    (Inl e, w3) \<Rightarrow> (Inl e, w3)
                  | (Inr _, w3) \<Rightarrow> (Inr (''Successfully wrote note to '' @ notePath), w3))))"

definition update_note ::
  "environment \<Rightarrow> ServerConfig \<Rightarrow> world \<Rightarrow> string \<Rightarrow> string \<Rightarrow> UpdateMode \<Rightarrow> (error + string) \<times> world" where
  "update_note env config w notePath content mode =
     (if \<not> endsWith notePath ''.md'' then (Inl ExtensionRequired, w)
      else
        let fullPath = path_join [vaultDirectories env config ! 0, notePath] in
        case validatePath env config w fullPath of
          (Inl e, w1) \<Rightarrow> (Inl e, w1)
        | (Inr validPath, w1) \<Rightarrow>
            (case (if mode \<noteq> Replace
                   then (case fs_readFile env w1 validPath of
                           (Inl e, w2) \<Rightarrow> (Inl e, w2)
                         | (Inr existingContent, w2) \<Rightarrow>
                             (Inr (if mode = Append then existingContent @ [CHR 0x0A] @ content
                                   else content @ [CHR 0x0A] @ existingContent), w2))
                   else (Inr content, w1)) of
               (Inl e, w2) \<Rightarrow> (Inl e, w2)
             | (Inr finalContent, w2) \<Rightarrow>
                 (case fs_writeFile env w2 validPath finalContent of
                    (Inl e, w3) \<Rightarrow> (Inl e, w3)
                  | (Inr _, w3) \<Rightarrow> (Inr (''Successfully updated note at '' @ notePath), w3))))"

text \<open>
  The \<open>CallToolRequest\<close> handler: the write gate, the dispatch on the tool name, and the
  \<open>catch\<close> that turns every exception into an error response.
\<close>

definition respond :: "(error + string) \<times> world \<Rightarrow> response \<times> world" where
  "respond r = (case r of (Inl e, w) \<Rightarrow> (failure e, w) | (Inr t, w) \<Rightarrow> (success t, w))"

definition callTool ::
  "nat \<Rightarrow> environment \<Rightarrow> ServerConfig \<Rightarrow> world \<Rightarrow> request \<Rightarrow> (response \<times> world) option" where
  "callTool depth env config w req =
     (if (toolName req = ''write_note'' \<or> toolName req = ''update_note'') \<and> \<not> enableWrite config
      then Some (failure WriteDisabled, w)
      else
        (case req of
           ReadNotes paths \<Rightarrow> Some (respond (read_notes env config w paths))
         | SearchNotes query \<Rightarrow> map_option respond (search_notes depth env config w query)
         | WriteNote notePath content createDirectories \<Rightarrow>
             Some (respond (write_note env config w notePath content createDirectories))
         | UpdateNote notePath content mode \<Rightarrow>
             Some (respond (update_note env config w notePath content mode))
         | Malformed n \<Rightarrow>
             Some (if n \<in> set [''read_notes'', ''search_notes'', ''write_note'', ''update_note'']
                   then failure (InvalidArguments n) else failure (UnknownTool n), w)
         | OtherTool n \<Rightarrow> Some (failure (UnknownTool n), w)))"

section \<open>Confinement as the specification words it\<close>

text \<open>
  A location lies under a root when the segments of the root are the first segments of
  the location.
\<close>

definition segments :: "string \<Rightarrow> string list" where
  "segments p = filter (\<lambda>s. s \<noteq> []) (split_str path_sep p)"

definition liesUnder :: "string \<Rightarrow> string \<Rightarrow> bool" where
  "liesUnder root p = prefix (segments root) (segments p)"

section \<open>Well-formed file systems\<close>

text \<open>
  The names of directory entries are not empty, contain no separator and are neither
  \<open>.\<close> nor \<open>..\<close>. \<open>maxDepth\<close> is the length of the longest path of the table, and
  \<open>canonical\<close> gives the segments of an absolute path once it is normalized.
\<close>

definition validName :: "string \<Rightarrow> bool" where
  "validName s = (s \<noteq> [] \<and> path_sep \<notin> set s \<and> s \<noteq> ''.'' \<and> s \<noteq> ''..'')"

definition wellFormed :: "filesystem \<Rightarrow> bool" where
  "wellFormed fs = list_all (\<lambda>(k, v). list_all validName k) fs"

definition canonical :: "string \<Rightarrow> string list" where
  "canonical p = normalizeSegments False [] (split_str path_sep p)"

definition maxDepth :: "filesystem \<Rightarrow> nat" where
  "maxDepth fs = foldr (\<lambda>(k, v) m. max (length k) m) fs 0"

section \<open>Example vaults\<close>

definition example_env :: environment where
  "example_env = \<lparr>homedir = ''/home/user'', cwd = ''/srv'', regexTest = (\<lambda>pattern subject. None)\<rparr>"

definition example_config :: ServerConfig where
  "example_config = \<lparr>vaultPath = ''/vault'', enableWrite = True\<rparr>"

definition start :: "filesystem \<Rightarrow> world" where
  "start fs = \<lparr>files = fs, calls = []\<rparr>"

text \<open>A vault with a hidden directory and two ordinary ones.\<close>

definition notes_fs :: filesystem where
  "notes_fs =
     [([''vault''], Dir),
      ([''vault'', ''a''], Dir), ([''vault'', ''a'', ''ok.md''], File ''line1''),
      ([''vault'', ''.hidden''], Dir), ([''vault'', ''.hidden'', ''secret.md''], File ''s''),
      ([''vault'', ''b''], Dir), ([''vault'', ''b'', ''ok2.md''], File ''2''),
      ([''etc''], Dir), ([''etc'', ''passwd''], File ''root:x:0:0''),
      ([''etc'', ''.ssh''], Dir), ([''etc'', ''.ssh'', ''key''], File ''k'')]"

text \<open>A link inside the vault to a file outside of it.\<close>

definition escape_fs :: filesystem where
  "escape_fs =
     [([''vault''], Dir), ([''vault'', ''link''], Symlink ''/etc/passwd''),
      ([''etc''], Dir), ([''etc'', ''passwd''], File ''root:x:0:0'')]"

text \<open>A link inside the vault to a directory outside of it.\<close>

definition outside_parent_fs :: filesystem where
  "outside_parent_fs =
     [([''vault''], Dir), ([''vault'', ''out''], Symlink ''/tmp''), ([''tmp''], Dir)]"

text \<open>A directory next to the vault whose name starts with the vault's name.\<close>

definition sibling_fs :: filesystem where
  "sibling_fs =
     [([''vault''], Dir), ([''vaultX''], Dir), ([''vaultX'', ''note.md''], File ''x'')]"




text \<open>A vault whose path has an upper-case letter, on a case-sensitive file system.\<close>

definition upper_config :: ServerConfig where
  "upper_config = \<lparr>vaultPath = ''/Vault'', enableWrite = True\<rparr>"

definition upper_fs :: filesystem where
  "upper_fs = [([''Vault''], Dir), ([''Vault'', ''a.md''], File ''1'')]"

section \<open>The hidden-entry policy\<close>

lemma hasHiddenPart_iff:
  "hasHiddenPart p \<longleftrightarrow> (\<exists>part \<in> set (split_str path_sep p). startsWith part ''.'')"
  by (simp add: hasHiddenPart_def list_ex_iff)

text \<open>
  Claim C6. A candidate path with a segment that begins with a dot is denied with
  \<open>HiddenPathDenied\<close>, whatever the environment, the vault and the file system are; the
  world is returned as it was, so no \<open>fs\<close> call has been made for it.
\<close>

theorem hidden_segment_denied_first:
  assumes "part \<in> set (split_str path_sep requestedPath)" and "startsWith part ''.''"
  shows "validatePath env config w requestedPath = (Inl HiddenPathDenied, w)"
proof -
  have "hasHiddenPart requestedPath"
    using assms hasHiddenPart_iff by blast
  then show ?thesis
    by (simp add: validatePath_def)
qed

theorem hidden_segment_denied_first_witness:
  "''.hidden'' \<in> set (split_str path_sep ''/vault/.hidden/secret.md'') \<and>
   startsWith ''.hidden'' ''.'' \<and>
   isWithinVault example_env example_config (normalizePath ''/vault/.hidden/secret.md'') \<and>
   fst (fs_realpath example_env (start notes_fs) ''/vault/.hidden/secret.md'') =
     Inr ''/vault/.hidden/secret.md'' \<and>
   validatePath example_env example_config (start notes_fs) ''/vault/.hidden/secret.md'' =
     (Inl HiddenPathDenied, start notes_fs)"
proof -
  have a: "''.hidden'' \<in> set (split_str path_sep ''/vault/.hidden/secret.md'')"
    by code_simp
  have b: "startsWith ''.hidden'' ''.''"
    by code_simp
  have c: "isWithinVault example_env example_config (normalizePath ''/vault/.hidden/secret.md'')"
    by code_simp
  have d: "fst (fs_realpath example_env (start notes_fs) ''/vault/.hidden/secret.md'') =
     Inr ''/vault/.hidden/secret.md''"
    by code_simp
  show ?thesis
    using a b c d hidden_segment_denied_first [OF a b] by simp
qed

section \<open>The prefix check\<close>

text \<open>
  Claim C7, as amended. A candidate path whose normalized absolute form has no vault
  directory as a prefix is denied without any \<open>fs\<close> call (the world is returned as it
  was). The reason is \<open>OutsideVault\<close>, unless a segment of the path begins with a dot:
  the hidden-entry check comes first and gives \<open>HiddenPathDenied\<close>.
\<close>

theorem outside_prefix_denied_without_resolution:
  assumes "\<not> isWithinVault env config (normalizePath (absolutePath env requestedPath))"
  shows "validatePath env config w requestedPath =
           (Inl (if hasHiddenPart requestedPath then HiddenPathDenied
                 else OutsideVault (absolutePath env requestedPath) (vaultDirectories env config)),
            w)"
  using assms by (simp add: validatePath_def Let_def)

theorem outside_prefix_denied_without_resolution_witness:
  "\<not> isWithinVault example_env example_config
       (normalizePath (absolutePath example_env ''/etc/passwd'')) \<and>
   validatePath example_env example_config (start notes_fs) ''/etc/passwd'' =
     (Inl (OutsideVault ''/etc/passwd'' [''/vault'']), start notes_fs)"
proof -
  have a: "\<not> isWithinVault example_env example_config
              (normalizePath (absolutePath example_env ''/etc/passwd''))"
    by code_simp
  have b: "\<not> hasHiddenPart ''/etc/passwd''"
    by code_simp
  have c: "absolutePath example_env ''/etc/passwd'' = ''/etc/passwd''"
    by code_simp
  have d: "vaultDirectories example_env example_config = [''/vault'']"
    by code_simp
  show ?thesis
    using a outside_prefix_denied_without_resolution [OF a, of "start notes_fs"] b c d by simp
qed

text \<open>
  Claim C7 as it is worded fails at \<open>/etc/.ssh/key\<close>: no vault directory is a prefix of
  its normalized absolute form, and the denial is \<open>HiddenPathDenied\<close>, not
  \<open>OutsideVault\<close>.
\<close>

theorem outside_prefix_reason_counterexample:
  "\<not> isWithinVault example_env example_config
       (normalizePath (absolutePath example_env ''/etc/.ssh/key'')) \<and>
   fst (validatePath example_env example_config (start notes_fs) ''/etc/.ssh/key'') =
     Inl HiddenPathDenied \<and>
   fst (validatePath example_env example_config (start notes_fs) ''/etc/.ssh/key'') \<noteq>
     Inl (OutsideVault (absolutePath example_env ''/etc/.ssh/key'')
            (vaultDirectories example_env example_config))"
  by code_simp

text \<open>
  Claim C2. The vault is \<open>/vault\<close>; \<open>/vaultX/note.md\<close> exists and does not lie under
  it, and \<open>validatePath\<close> returns it as allowed: \<open>/vault\<close> is a prefix of the string
  \<open>/vaultx/note.md\<close>.
\<close>

theorem prefix_check_admits_sibling:
  "vaultDirectories example_env example_config = [''/vault''] \<and>
   \<not> liesUnder ''/vault'' ''/vaultX/note.md'' \<and>
   lookup_path example_env sibling_fs ''/vaultX/note.md'' = Some [''vaultX'', ''note.md''] \<and>
   fst (validatePath example_env example_config (start sibling_fs) ''/vaultX/note.md'') =
     Inr ''/vaultX/note.md''"
  by code_simp

section \<open>Exceptions raised inside the \<open>try\<close> blocks of the validator\<close>

text \<open>
  Both \<open>Access denied\<close> errors of the resolution steps are thrown inside the \<open>try\<close>
  block whose \<open>catch\<close> follows, so neither leaves \<open>validatePath\<close>.
\<close>

lemma validatePath_never_SymlinkEscape:
  "fst (validatePath env config w p) \<noteq> Inl SymlinkEscape"
  by (auto simp: validatePath_def validateParent_def Let_def
           split: prod.splits sum.splits if_splits)

lemma validatePath_never_ParentOutsideVault:
  "fst (validatePath env config w p) \<noteq> Inl ParentOutsideVault"
  by (auto simp: validatePath_def validateParent_def Let_def
           split: prod.splits sum.splits if_splits)

text \<open>
  Claim C1 at \<open>/vault/link\<close>, a link to \<open>/etc/passwd\<close>: the path exists, its
  normalized absolute form is inside the vault and its real path is outside. The claim
  asks for a \<open>SymlinkEscape\<close> denial; \<open>validatePath\<close> returns the path as allowed, and
  \<open>read_notes\<close> then returns the content of \<open>/etc/passwd\<close>.
\<close>

theorem symlink_escape_is_allowed:
  "lookup_path example_env escape_fs ''/vault/link'' = Some [''etc'', ''passwd''] \<and>
   isWithinVault example_env example_config
     (normalizePath (absolutePath example_env ''/vault/link'')) \<and>
   \<not> isWithinVault example_env example_config (normalizePath (render [''etc'', ''passwd''])) \<and>
   fst (validatePath example_env example_config (start escape_fs) ''/vault/link'') =
     Inr ''/vault/link'' \<and>
   map_option (responseText \<circ> fst)
     (callTool 0 example_env example_config (start escape_fs) (ReadNotes [''link''])) =
     Some (''link:'' @ [CHR 0x0A] @ ''root:x:0:0'' @ [CHR 0x0A])"
  by code_simp

text \<open>
  Claim C3 at \<open>/vault/out/new.md\<close>, where \<open>/vault/out\<close> is a link to \<open>/tmp\<close>: the
  target does not exist, its parent does and resolves outside the vault. The claim asks for
  \<open>ParentOutsideVault\<close>; the denial is the one of a missing parent.
\<close>

theorem parent_outside_reported_as_missing:
  "lookup_path example_env outside_parent_fs ''/vault/out/new.md'' = None \<and>
   lookup_path example_env outside_parent_fs (path_dirname ''/vault/out/new.md'') =
     Some [''tmp''] \<and>
   isWithinVault example_env example_config
     (normalizePath (absolutePath example_env ''/vault/out/new.md'')) \<and>
   \<not> isWithinVault example_env example_config (normalizePath (render [''tmp''])) \<and>
   fst (validatePath example_env example_config (start outside_parent_fs) ''/vault/out/new.md'') =
     Inl (ParentMissing ''/vault/out'')"
  by code_simp

section \<open>Writing a file and reading it back\<close>

text \<open>
  Replacing the content of a file changes no directory, link or name, so every path
  resolves afterwards as it did before.
\<close>

lemma node_at_store:
  "k0 \<noteq> [] \<Longrightarrow> node_at (store fs k0 v) k = (if k = k0 then Some v else node_at fs k)"
  by (simp add: node_at_def store_def update_conv')

lemma walk_step:
  assumes shape: "\<And>k. node_at fs' k = node_at fs k \<or>
             (\<exists>c c'. node_at fs' k = Some (File c') \<and> node_at fs k = Some (File c))"
    and less: "\<And>m cur segs. m < n \<Longrightarrow> walk fs' m cur segs = walk fs m cur segs"
  shows "walk fs' n cur segs = walk fs n cur segs"
proof (induction segs arbitrary: cur)
  case Nil
  show ?case by simp
next
  case (Cons s rest)
  have dir: "\<And>k. node_at fs' k = Some Dir \<longleftrightarrow> node_at fs k = Some Dir"
    using shape by (metis node.distinct(1) option.inject)
  have none: "\<And>k. node_at fs' k = None \<longleftrightarrow> node_at fs k = None"
    using shape by (metis option.distinct(1))
  have link: "\<And>k t. node_at fs' k = Some (Symlink t) \<longleftrightarrow> node_at fs k = Some (Symlink t)"
    using shape by (metis node.distinct(3) option.inject)
  show ?case
  proof (cases "node_at fs cur = Some Dir")
    case False
    then have "node_at fs' cur \<noteq> Some Dir" by (simp add: dir)
    with False show ?thesis
      by (auto split: option.splits node.splits)
  next
    case True
    then have cur': "node_at fs' cur = Some Dir" by (simp add: dir)
    show ?thesis
    proof (cases "node_at fs (cur @ [s])")
      case None
      then have "node_at fs' (cur @ [s]) = None" by (simp add: none)
      with None True cur' show ?thesis
        by (simp add: Cons.IH)
    next
      case (Some nd)
      show ?thesis
      proof (cases nd)
        case (Symlink t)
        then have "node_at fs' (cur @ [s]) = Some (Symlink t)"
          using Some by (simp add: link)
        with Some Symlink True cur' show ?thesis
          by (simp add: Cons.IH less split: nat.splits)
      next
        case Dir
        then have "node_at fs' (cur @ [s]) = Some Dir"
          using Some by (simp add: dir)
        with Some Dir True cur' show ?thesis
          by (simp add: Cons.IH)
      next
        case (File c)
        then obtain c' where "node_at fs' (cur @ [s]) = Some (File c')"
          using Some shape [of "cur @ [s]"] by auto
        with Some File True cur' show ?thesis
          by (simp add: Cons.IH)
      qed
    qed
  qed
qed

lemma walk_same_shape:
  assumes "\<And>k. node_at fs' k = node_at fs k \<or>
             (\<exists>c c'. node_at fs' k = Some (File c') \<and> node_at fs k = Some (File c))"
  shows "walk fs' n cur segs = walk fs n cur segs"
proof (induction n arbitrary: cur segs rule: less_induct)
  case (less n)
  show ?case
    by (rule walk_step [OF assms]) (rule less.IH)
qed

lemma walk_store_File:
  assumes "node_at fs k0 = Some (File c0)"
  shows "walk (store fs k0 (File c)) n cur segs = walk fs n cur segs"
proof (rule walk_same_shape)
  fix k
  have "k0 \<noteq> []"
    using assms by (auto simp: node_at_def)
  then show "node_at (store fs k0 (File c)) k = node_at fs k \<or>
     (\<exists>c1 c'. node_at (store fs k0 (File c)) k = Some (File c') \<and> node_at fs k = Some (File c1))"
    using assms by (simp add: node_at_store)
qed

lemma lookup_path_store_File:
  "node_at fs k0 = Some (File c0) \<Longrightarrow>
   lookup_path env (store fs k0 (File c)) p = lookup_path env fs p"
  by (simp add: lookup_path_def walk_store_File)

lemma validateParent_files: "files (snd (validateParent env config w p)) = files w"
  by (simp add: validateParent_def fs_realpath_def Let_def split: prod.splits sum.splits option.splits)

lemma validatePath_files: "files (snd (validatePath env config w p)) = files w"
  by (simp add: validatePath_def validateParent_files fs_realpath_def Let_def split: prod.splits sum.splits option.splits)

lemma fs_readFile_files: "files (snd (fs_readFile env w p)) = files w"
  by (simp add: fs_readFile_def)

lemma fs_readFile_result:
  "fst (fs_readFile env w p) = Inr E \<longleftrightarrow>
   (\<exists>k. lookup_path env (files w) p = Some k \<and> node_at (files w) k = Some (File E))"
  by (auto simp: fs_readFile_def split: option.splits node.splits)

lemma write_then_read:
  assumes "lookup_path env (files w) p = Some k" and "node_at (files w) k = Some (File c0)"
  shows "\<exists>w'. fs_writeFile env w p c = (Inr (), w') \<and> fst (fs_readFile env w' p) = Inr c"
proof -
  have k: "k \<noteq> []" using assms(2) by (auto simp: node_at_def)
  let ?w' = "w\<lparr>calls := calls w @ [WriteFile p c], files := store (files w) k (File c)\<rparr>"
  have "fs_writeFile env w p c = (Inr (), ?w')"
    using assms by (simp add: fs_writeFile_def Let_def)
  moreover have "fst (fs_readFile env ?w' p) = Inr c"
    using assms k by (simp add: fs_readFile_result lookup_path_store_File node_at_store)
  ultimately show ?thesis by blast
qed

section \<open>Updating a note\<close>

text \<open>
  Claim C8. With writing enabled, for a note path ending in \<open>.md\<close> that \<open>validatePath\<close>
  accepts and whose file exists with content \<open>E\<close>, \<open>update_note\<close> with content \<open>N\<close>
  succeeds, and the file then holds \<open>N\<close> for \<open>replace\<close>, \<open>E\<close>, a newline and \<open>N\<close>
  for \<open>append\<close>, and \<open>N\<close>, a newline and \<open>E\<close> for \<open>prepend\<close>.
\<close>

theorem update_note_content:
  assumes "enableWrite config" and "endsWith notePath ''.md''"
    and "validatePath env config w (path_join [vaultDirectories env config ! 0, notePath]) =
           (Inr validPath, w1)"
    and "fst (fs_readFile env w1 validPath) = Inr E"
  shows "\<exists>w'. callTool depth env config w (UpdateNote notePath N mode) =
                Some (success (''Successfully updated note at '' @ notePath), w') \<and>
              fst (fs_readFile env w' validPath) =
                Inr (case mode of
                       Replace \<Rightarrow> N
                     | Append \<Rightarrow> E @ [CHR 0x0A] @ N
                     | Prepend \<Rightarrow> N @ [CHR 0x0A] @ E)"
proof -
  obtain k where k: "lookup_path env (files w1) validPath = Some k"
      "node_at (files w1) k = Some (File E)"
    using assms(4) fs_readFile_result by blast
  obtain w2 where w2: "fs_readFile env w1 validPath = (Inr E, w2)" "files w2 = files w1"
    using assms(4) fs_readFile_files [of env w1 validPath]
    by (cases "fs_readFile env w1 validPath") auto
  have gate: "callTool depth env config w (UpdateNote notePath N mode) =
                Some (respond (update_note env config w notePath N mode))"
    using assms(1) by (simp add: callTool_def)
  show ?thesis
  proof (cases mode)
    case Replace
    obtain w' where w': "fs_writeFile env w1 validPath N = (Inr (), w')"
        "fst (fs_readFile env w' validPath) = Inr N"
      using write_then_read [OF k] by blast
    have "update_note env config w notePath N mode =
            (Inr (''Successfully updated note at '' @ notePath), w')"
      using assms(2,3) Replace w'(1) by (simp add: update_note_def)
    then show ?thesis
      using gate w'(2) Replace by (simp add: respond_def)
  next
    case Append
    obtain w' where w': "fs_writeFile env w2 validPath (E @ [CHR 0x0A] @ N) = (Inr (), w')"
        "fst (fs_readFile env w' validPath) = Inr (E @ [CHR 0x0A] @ N)"
      using write_then_read [of env w2 validPath k E] k w2(2) by auto
    have "update_note env config w notePath N mode =
            (Inr (''Successfully updated note at '' @ notePath), w')"
      using assms(2,3) Append w2(1) w'(1) by (simp add: update_note_def)
    then show ?thesis
      using gate w'(2) Append by (simp add: respond_def)
  next
    case Prepend
    obtain w' where w': "fs_writeFile env w2 validPath (N @ [CHR 0x0A] @ E) = (Inr (), w')"
        "fst (fs_readFile env w' validPath) = Inr (N @ [CHR 0x0A] @ E)"
      using write_then_read [of env w2 validPath k E] k w2(2) by auto
    have "update_note env config w notePath N mode =
            (Inr (''Successfully updated note at '' @ notePath), w')"
      using assms(2,3) Prepend w2(1) w'(1) by (simp add: update_note_def)
    then show ?thesis
      using gate w'(2) Prepend by (simp add: respond_def)
  qed
qed

theorem update_note_content_witness:
  "(\<exists>w'. callTool 0 example_env example_config (start notes_fs) (UpdateNote ''a/ok.md'' ''line2'' Append) =
            Some (success ''Successfully updated note at a/ok.md'', w') \<and>
          fst (fs_readFile example_env w' ''/vault/a/ok.md'') = Inr (''line1'' @ [CHR 0x0A] @ ''line2'')) \<and>
   (\<exists>w'. callTool 0 example_env example_config (start notes_fs) (UpdateNote ''a/ok.md'' ''line2'' Prepend) =
            Some (success ''Successfully updated note at a/ok.md'', w') \<and>
          fst (fs_readFile example_env w' ''/vault/a/ok.md'') = Inr (''line2'' @ [CHR 0x0A] @ ''line1'')) \<and>
   (\<exists>w'. callTool 0 example_env example_config (start notes_fs) (UpdateNote ''a/ok.md'' ''line2'' Replace) =
            Some (success ''Successfully updated note at a/ok.md'', w') \<and>
          fst (fs_readFile example_env w' ''/vault/a/ok.md'') = Inr ''line2'')"
proof -
  have a: "enableWrite example_config"
    by code_simp
  have b: "endsWith ''a/ok.md'' ''.md''"
    by code_simp
  have c: "validatePath example_env example_config (start notes_fs)
             (path_join [vaultDirectories example_env example_config ! 0, ''a/ok.md'']) =
           (Inr ''/vault/a/ok.md'', \<lparr>files = notes_fs, calls = [Realpath ''/vault/a/ok.md'']\<rparr>)"
    by code_simp
  have d: "fst (fs_readFile example_env \<lparr>files = notes_fs, calls = [Realpath ''/vault/a/ok.md'']\<rparr>
                  ''/vault/a/ok.md'') = Inr ''line1''"
    by code_simp
  show ?thesis
    using update_note_content [OF a b c d, of 0 "''line2''" Append]
      update_note_content [OF a b c d, of 0 "''line2''" Prepend]
      update_note_content [OF a b c d, of 0 "''line2''" Replace]
    by simp
qed

section \<open>Writing a note into a directory that does not exist\<close>

text \<open>
  Claim C4 asks that \<open>write_note\<close> with \<open>createDirectories\<close> creates a missing parent
  directory and writes the file. The code does the opposite: when neither the target nor
  its parent directory resolves, \<open>validatePath\<close> has already thrown before
  \<open>ensureDirectory\<close> is reached, so the call fails and the file system is left as it was.
\<close>

theorem write_note_missing_parent_fails:
  assumes "lookup_path env (files w)
             (absolutePath env (path_join [vaultDirectories env config ! 0, notePath])) = None"
    and "lookup_path env (files w)
           (path_dirname (absolutePath env (path_join [vaultDirectories env config ! 0, notePath]))) =
         None"
  shows "\<exists>e w'. write_note env config w notePath content True = (Inl e, w') \<and>
                 files w' = files w \<and>
                 callTool depth env config w (WriteNote notePath content True) =
                   (if enableWrite config then Some (failure e, w')
                    else Some (failure WriteDisabled, w))"
  using assms
  by (simp add: write_note_def validatePath_def validateParent_def fs_realpath_def callTool_def
        toolName_def respond_def Let_def)

theorem write_note_missing_parent_fails_witness:
  "lookup_path example_env notes_fs ''/vault/new/note.md'' = None \<and>
   lookup_path example_env notes_fs ''/vault/new'' = None \<and>
   callTool 0 example_env example_config (start notes_fs) (WriteNote ''new/note.md'' ''x'' True) =
     Some (failure (ParentMissing ''/vault/new''),
           \<lparr>files = notes_fs, calls = [Realpath ''/vault/new/note.md'', Realpath ''/vault/new'']\<rparr>)"
proof -
  have p: "absolutePath example_env
             (path_join [vaultDirectories example_env example_config ! 0, ''new/note.md'']) =
           ''/vault/new/note.md''"
    by code_simp
  have d: "path_dirname ''/vault/new/note.md'' = ''/vault/new''"
    by code_simp
  have a: "lookup_path example_env notes_fs ''/vault/new/note.md'' = None"
    by code_simp
  have b: "lookup_path example_env notes_fs ''/vault/new'' = None"
    by code_simp
  have c: "callTool 0 example_env example_config (start notes_fs)
             (WriteNote ''new/note.md'' ''x'' True) =
           Some (failure (ParentMissing ''/vault/new''),
             \<lparr>files = notes_fs, calls = [Realpath ''/vault/new/note.md'', Realpath ''/vault/new'']\<rparr>)"
    by code_simp
  have "\<exists>e w'. write_note example_env example_config (start notes_fs) ''new/note.md'' ''x'' True =
          (Inl e, w') \<and> files w' = files (start notes_fs)"
    using write_note_missing_parent_fails [of example_env "start notes_fs" example_config
        "''new/note.md''" "''x''" 0] a b p d
    by (simp add: start_def) blast
  then show ?thesis
    using a b c by simp
qed

section \<open>The case-folded root as a file-system path\<close>

text \<open>
  Claim C5 asks that no normalized path reaches the file system. The vault is \<open>/Vault\<close>
  and passes the start-up check. \<open>vaultDirectories\<close> holds its case-folded form
  \<open>/vault\<close>, which \<open>search_notes\<close> hands to \<open>readdir\<close> and \<open>read_notes\<close> to
  \<open>realpath\<close>; on a case-sensitive file system nothing is there, and both calls fail
  although \<open>/Vault/a.md\<close> exists.
\<close>

theorem normalized_root_reaches_file_system:
  "vaultIsDirectory example_env upper_fs upper_config \<and>
   vaultDirectories example_env upper_config = [normalizePath ''/Vault''] \<and>
   normalizePath ''/Vault'' = ''/vault'' \<and>
   lookup_path example_env upper_fs ''/Vault/a.md'' = Some [''Vault'', ''a.md''] \<and>
   callTool 1 example_env upper_config (start upper_fs) (SearchNotes []) =
     Some (failure (SystemError ''scandir'' ''/vault''),
           \<lparr>files = upper_fs, calls = [Readdir ''/vault'']\<rparr>) \<and>
   callTool 0 example_env upper_config (start upper_fs) (ReadNotes [''a.md'']) =
     Some (success ''a.md: Error - Parent directory does not exist: /vault'',
           \<lparr>files = upper_fs, calls = [Realpath ''/vault/a.md'', Realpath ''/vault'']\<rparr>)"
  by code_simp

section \<open>Failures during the search\<close>

text \<open>
  The loop over the entries of a directory never lets an exception out, and it only adds
  to \<open>results\<close>; \<open>search\<close> fails only when the \<open>readdir\<close> of its own directory
  fails.
\<close>

lemma searchEntries_sound:
  "search depth env config query basePath currentPath w results = Some out \<Longrightarrow>
     prefix results (snd (snd out))"
  "searchEntries depth env config query basePath currentPath entries w results = Some out \<Longrightarrow>
     fst out = Inr () \<and> prefix results (snd (snd out))"
proof (induction depth env config query basePath currentPath w results
         and depth env config query basePath currentPath entries w results
         arbitrary: out and out rule: search_searchEntries.induct)
  case (1 env config query basePath currentPath w results)
  then show ?case by simp
next
  case (2 depth env config query basePath currentPath w results)
  then show ?case
    by (auto split: prod.splits sum.splits)
next
  case (3 depth env config query basePath currentPath w results)
  then show ?case by auto
next
  case (4 depth env config query basePath currentPath entry entries w results)
  let ?fullPath = "path_join [currentPath, name entry]"
  obtain r w1 where v: "validatePath env config w ?fullPath = (r, w1)"
    by (cases "validatePath env config w ?fullPath")
  show ?case
  proof (cases r)
    case (Inl e)
    then show ?thesis
      using "4.IH"(1) [OF refl v [symmetric] Inl] "4.prems" v by simp
  next
    case (Inr p)
    let ?results1 = "if endsWith (name entry) ''.md'' \<and> nameMatches env query (name entry)
                     then results @ [removeFirst ?fullPath basePath] else results"
    have r1: "prefix results ?results1" by simp
    show ?thesis
    proof (cases "isDirectory entry")
      case False
      have "searchEntries depth env config query basePath currentPath entries w1 ?results1 = Some out"
        using "4.prems" v Inr False by (simp add: Let_def)
      from "4.IH"(4) [OF refl v [symmetric] Inr refl refl False this]
      show ?thesis using r1 prefix_order.trans by blast
    next
      case True
      obtain r2 w2 results2 where
        s: "search depth env config query basePath ?fullPath w1 ?results1 = Some (r2, w2, results2)"
        and rest: "searchEntries depth env config query basePath currentPath entries w2 results2 = Some out"
        using "4.prems" v Inr True by (auto simp: Let_def split: option.splits)
      have "prefix ?results1 results2"
        using "4.IH"(2) [OF refl v [symmetric] Inr refl refl True s] by simp
      moreover have "fst out = Inr () \<and> prefix results2 (snd (snd out))"
        using "4.IH"(3) [OF refl v [symmetric] Inr refl refl True s refl refl rest] .
      ultimately show ?thesis
        using r1 prefix_order.trans by blast
    qed
  qed
qed


lemma search_fails_only_at_readdir:
  assumes "search depth env config query basePath currentPath w results = Some out"
    and "fst (fs_readdir env w currentPath) = Inr entries"
  shows "fst out = Inr ()"
proof (cases depth)
  case 0
  then show ?thesis using assms by simp
next
  case (Suc d)
  then show ?thesis
    using assms searchEntries_sound(2) [of d env config query basePath currentPath]
    by (auto split: prod.splits sum.splits)
qed

lemma searchNotes_single_root:
  "searchNotes depth env config w query =
     (case search depth env config query (vaultDirectories env config ! 0)
             (vaultDirectories env config ! 0) w [] of
        None \<Rightarrow> None
      | Some (Inl e, w1, results) \<Rightarrow> Some (Inl e, w1)
      | Some (Inr u, w1, results) \<Rightarrow> Some (Inr results, w1))"
  by (simp add: searchNotes_def vaultDirectories_def split: option.splits prod.splits sum.splits)

section \<open>Paths of directory entries\<close>

text \<open>
  Splitting and joining are inverse on segments without separator, so the segments of
  \<open>path.join(currentPath, name)\<close> are those of \<open>currentPath\<close> followed by \<open>name\<close>.
\<close>

lemma split_str_nonempty [simp]: "split_str c p \<noteq> []"
  by (induction p) (auto split: list.splits)

lemma split_str_no_sep: "c \<notin> set s \<Longrightarrow> split_str c s = [s]"
  by (induction s) auto

lemma split_str_append: "split_str c (x @ c # y) = split_str c x @ split_str c y"
proof (induction x)
  case Nil
  show ?case by simp
next
  case (Cons a x)
  then show ?case
    by (cases "split_str c x") auto
qed

lemma split_str_pieces: "s \<in> set (split_str c p) \<Longrightarrow> c \<notin> set s"
proof (induction p arbitrary: s)
  case Nil
  then show ?case by simp
next
  case (Cons a p)
  then show ?case
    by (cases "split_str c p") (auto split: if_splits)
qed

lemma split_joinWith:
  "segs \<noteq> [] \<Longrightarrow> (\<And>s. s \<in> set segs \<Longrightarrow> c \<notin> set s) \<Longrightarrow>
   split_str c (joinWith [c] segs) = segs"
proof (induction "[c]" segs rule: joinWith.induct)
  case 1
  then show ?case by simp
next
  case (2 s)
  then show ?case by (simp add: split_str_no_sep)
next
  case (3 s t ss)
  have "split_str c (s @ c # joinWith [c] (t # ss)) = split_str c s @ split_str c (joinWith [c] (t # ss))"
    by (rule split_str_append)
  then show ?case
    using 3 by (simp add: split_str_no_sep)
qed


lemma normalizeSegments_append:
  "normalizeSegments a res (xs @ ys) = normalizeSegments a (normalizeSegments a res xs) ys"
  by (induction xs arbitrary: res) auto

lemma normalizeSegments_valid_names:
  "list_all validName xs \<Longrightarrow> normalizeSegments a res xs = res @ xs"
  by (induction xs arbitrary: res) (auto simp: validName_def)

lemma list_all_butlast: "list_all P xs \<Longrightarrow> list_all P (butlast xs)"
  by (induction xs) auto

lemma normalizeSegments_gives_valid_names:
  "list_all validName res \<Longrightarrow> (\<And>s. s \<in> set xs \<Longrightarrow> path_sep \<notin> set s) \<Longrightarrow>
   list_all validName (normalizeSegments False res xs)"
proof (induction xs arbitrary: res)
  case Nil
  then show ?case by simp
next
  case (Cons x xs)
  have x: "path_sep \<notin> set x" using Cons.prems(2) by simp
  have rest: "\<And>s. s \<in> set xs \<Longrightarrow> path_sep \<notin> set s" using Cons.prems(2) by simp
  show ?case
    using Cons.IH [OF _ rest] Cons.prems(1) x list_all_butlast [OF Cons.prems(1)]
    by (auto simp: validName_def)
qed

lemma canonical_valid: "list_all validName (canonical p)"
  unfolding canonical_def
  by (rule normalizeSegments_gives_valid_names) (simp_all add: split_str_pieces)

lemma canonical_no_sep: "s \<in> set (canonical p) \<Longrightarrow> path_sep \<notin> set s"
  using canonical_valid [of p] by (auto simp: list_all_iff validName_def)

lemma path_resolve_absolute:
  assumes "path_isAbsolute p"
  shows "path_resolve wd [p] = path_sep # joinWith [path_sep] (canonical p)"
proof -
  have p: "p \<noteq> []" using assms by (auto simp: path_isAbsolute_def)
  have "split_str path_sep (p @ [path_sep]) = split_str path_sep p @ [[]]"
    using split_str_append [of path_sep p "[]"] by simp
  then have "normalizeSegments False [] (split_str path_sep (p @ [path_sep])) = canonical p"
    by (simp add: normalizeSegments_append canonical_def)
  then show ?thesis
    using assms p by (simp add: path_resolve_def normalizeString_def)
qed

lemma walk_skip_empty: "walk fs n [] ([] # rest) = walk fs n [] rest"
  by (simp add: node_at_def)

lemma lookup_path_absolute:
  assumes "path_isAbsolute p"
  shows "lookup_path env fs p = walk fs SYMLOOP_MAX [] (canonical p)"
proof (cases "canonical p = []")
  case True
  then show ?thesis
    using assms by (simp add: lookup_path_def path_resolve_absolute node_at_def)
next
  case False
  then have "split_str path_sep (joinWith [path_sep] (canonical p)) = canonical p"
    by (simp add: split_joinWith canonical_no_sep)
  then show ?thesis
    using assms by (simp add: lookup_path_def path_resolve_absolute walk_skip_empty del: walk.simps)
qed

lemma joinWith_snoc_nonempty: "s \<noteq> [] \<Longrightarrow> joinWith d (xs @ [s]) \<noteq> []"
  by (induction d xs rule: joinWith.induct) auto

lemma path_join_valid_name:
  assumes "path_isAbsolute cur" and "validName s"
  shows "path_join [cur, s] = path_sep # joinWith [path_sep] (canonical cur @ [s])"
proof -
  have cur: "cur \<noteq> []" using assms(1) by (auto simp: path_isAbsolute_def)
  have s: "s \<noteq> []" "path_sep \<notin> set s" using assms(2) by (auto simp: validName_def)
  have last: "last (cur @ path_sep # s) \<noteq> path_sep"
    using s by (metis last_appendR last_in_set list.distinct(1) last_ConsR)
  have abs: "path_isAbsolute (cur @ path_sep # s)"
    using assms(1) by (auto simp: path_isAbsolute_def split: list.splits)
  have "split_str path_sep (cur @ path_sep # s) = split_str path_sep cur @ [s]"
    using s by (simp add: split_str_append split_str_no_sep)
  then have "normalizeSegments False [] (split_str path_sep (cur @ path_sep # s)) = canonical cur @ [s]"
    using assms(2) by (simp add: normalizeSegments_append canonical_def validName_def)
  then show ?thesis
    using cur s last abs
    by (simp add: path_join_def path_normalize_def normalizeString_def Let_def joinWith_snoc_nonempty)
      (simp add: path_sep_def)
qed

lemma path_join_absolute:
  "path_isAbsolute cur \<Longrightarrow> validName s \<Longrightarrow> path_isAbsolute (path_join [cur, s])"
  by (simp add: path_join_valid_name path_isAbsolute_def)

lemma canonical_path_join:
  assumes "path_isAbsolute cur" and "validName s"
  shows "canonical (path_join [cur, s]) = canonical cur @ [s]"
proof -
  have valid: "list_all validName (canonical cur @ [s])"
    using canonical_valid assms(2) by simp
  then have "\<And>t. t \<in> set (canonical cur @ [s]) \<Longrightarrow> path_sep \<notin> set t"
    by (auto simp: list_all_iff validName_def)
  then have "split_str path_sep (joinWith [path_sep] (canonical cur @ [s])) = canonical cur @ [s]"
    by (intro split_joinWith) simp_all
  then show ?thesis
    using valid
    by (simp add: path_join_valid_name [OF assms] canonical_def [of "path_sep # _"]
          normalizeSegments_valid_names del: list_all_append)
qed

text \<open>Resolving the path of a directory entry gives the entry itself.\<close>

lemma walk_snoc_step:
  assumes less: "\<And>m c segs. m < n \<Longrightarrow> walk fs m c segs = Some d \<Longrightarrow>
                   walk fs m c (segs @ [s]) = Some (d @ [s])"
    and d: "node_at fs d = Some Dir" and child: "node_at fs (d @ [s]) = Some nd"
    and nd: "nd = Dir \<or> (\<exists>content. nd = File content)"
    and s: "validName s"
  shows "walk fs n c segs = Some d \<Longrightarrow> walk fs n c (segs @ [s]) = Some (d @ [s])"
proof (induction segs arbitrary: c)
  case Nil
  then show ?case
    using d child nd s by (auto simp: validName_def)
next
  case (Cons x rest)
  show ?case
  proof (cases "node_at fs c = Some Dir")
    case False
    then show ?thesis
      using Cons.prems by (auto split: option.splits node.splits)
  next
    case True
    show ?thesis
    proof (cases "x = [] \<or> x = ''.'' \<or> x = ''..''")
      case True
      then show ?thesis
        using Cons.prems Cons.IH \<open>node_at fs c = Some Dir\<close> by auto
    next
      case False
      show ?thesis
      proof (cases "node_at fs (c @ [x])")
        case None
        then show ?thesis
          using Cons.prems False \<open>node_at fs c = Some Dir\<close> by simp
      next
        case (Some nd')
        show ?thesis
        proof (cases nd')
          case (Symlink t)
          show ?thesis
          proof (cases n)
            case 0
            then show ?thesis
              using Cons.prems False \<open>node_at fs c = Some Dir\<close> Some Symlink by simp
          next
            case (Suc m)
            then have "walk fs m (if path_isAbsolute t then [] else c)
                         (split_str path_sep t @ rest) = Some d"
              using Cons.prems False \<open>node_at fs c = Some Dir\<close> Some Symlink by simp
            then have "walk fs m (if path_isAbsolute t then [] else c)
                         ((split_str path_sep t @ rest) @ [s]) = Some (d @ [s])"
              using less Suc by blast
            then show ?thesis
              using False \<open>node_at fs c = Some Dir\<close> Some Symlink Suc by simp
          qed
        next
          case Dir
          then show ?thesis
            using Cons.prems Cons.IH False \<open>node_at fs c = Some Dir\<close> Some by simp
        next
          case (File content)
          then show ?thesis
            using Cons.prems Cons.IH False \<open>node_at fs c = Some Dir\<close> Some by simp
        qed
      qed
    qed
  qed
qed

lemma walk_snoc:
  assumes "node_at fs d = Some Dir" and "node_at fs (d @ [s]) = Some nd"
    and "nd = Dir \<or> (\<exists>content. nd = File content)" and "validName s"
  shows "walk fs n c segs = Some d \<Longrightarrow> walk fs n c (segs @ [s]) = Some (d @ [s])"
proof (induction n arbitrary: c segs rule: less_induct)
  case (less n)
  show ?case
    by (rule walk_snoc_step [OF less.IH assms less.prems])
qed

lemma lookup_path_entry:
  assumes "path_isAbsolute cur" and "validName s"
    and "lookup_path env fs cur = Some d"
    and "node_at fs d = Some Dir" and "node_at fs (d @ [s]) = Some nd"
    and "nd = Dir \<or> (\<exists>content. nd = File content)"
  shows "lookup_path env fs (path_join [cur, s]) = Some (d @ [s])"
  using assms(1-5) walk_snoc [of fs d s nd SYMLOOP_MAX "[]" "canonical cur", OF _ _ assms(6)]
  by (simp add: lookup_path_absolute path_join_absolute canonical_path_join)

lemma lookup_path_child:
  assumes "path_isAbsolute cur" and "validName s"
    and "lookup_path env fs cur = Some d"
    and "node_at fs d = Some Dir" and "node_at fs (d @ [s]) = Some Dir"
  shows "lookup_path env fs (path_join [cur, s]) = Some (d @ [s])"
  using assms by (rule lookup_path_entry) simp

section \<open>Termination of the search\<close>

text \<open>
  The search changes no file. Each level of the recursion goes one directory deeper in a
  table of finite depth, so a depth bound beyond \<open>maxDepth\<close> is never reached; and a
  result obtained under one bound is the result under every larger bound.
\<close>

lemma fs_readdir_files: "files (snd (fs_readdir env w p)) = files w"
  by (simp add: fs_readdir_def)

lemma search_files:
  "search depth env config query basePath currentPath w results = Some out \<Longrightarrow>
     files (fst (snd out)) = files w"
  "searchEntries depth env config query basePath currentPath entries w results = Some out \<Longrightarrow>
     files (fst (snd out)) = files w"
proof (induction depth env config query basePath currentPath w results
         and depth env config query basePath currentPath entries w results
         arbitrary: out and out rule: search_searchEntries.induct)
  case (1 env config query basePath currentPath w results)
  then show ?case by simp
next
  case (2 depth env config query basePath currentPath w results)
  obtain r w1 where rd: "fs_readdir env w currentPath = (r, w1)"
    by (cases "fs_readdir env w currentPath")
  then have w1: "files w1 = files w"
    using fs_readdir_files [of env w currentPath] by simp
  show ?case
  proof (cases r)
    case (Inl e)
    then show ?thesis using "2.prems" rd w1 by auto
  next
    case (Inr entries)
    then show ?thesis
      using "2.IH" [OF rd [symmetric] Inr] "2.prems" rd w1 by simp
  qed
next
  case (3 depth env config query basePath currentPath w results)
  then show ?case by auto
next
  case (4 depth env config query basePath currentPath entry entries w results)
  let ?fullPath = "path_join [currentPath, name entry]"
  obtain r w1 where v: "validatePath env config w ?fullPath = (r, w1)"
    by (cases "validatePath env config w ?fullPath")
  then have w1: "files w1 = files w"
    using validatePath_files [of env config w ?fullPath] by simp
  show ?case
  proof (cases r)
    case (Inl e)
    then show ?thesis
      using "4.IH"(1) [OF refl v [symmetric] Inl] "4.prems" v w1 by simp
  next
    case (Inr p)
    let ?results1 = "if endsWith (name entry) ''.md'' \<and> nameMatches env query (name entry)
                     then results @ [removeFirst ?fullPath basePath] else results"
    show ?thesis
    proof (cases "isDirectory entry")
      case False
      have "searchEntries depth env config query basePath currentPath entries w1 ?results1 = Some out"
        using "4.prems" v Inr False by (simp add: Let_def)
      from "4.IH"(4) [OF refl v [symmetric] Inr refl refl False this]
      show ?thesis using w1 by simp
    next
      case True
      obtain r2 w2 results2 where
        s: "search depth env config query basePath ?fullPath w1 ?results1 = Some (r2, w2, results2)"
        and rest: "searchEntries depth env config query basePath currentPath entries w2 results2 = Some out"
        using "4.prems" v Inr True by (auto simp: Let_def split: option.splits)
      have "files w2 = files w1"
        using "4.IH"(2) [OF refl v [symmetric] Inr refl refl True s] by simp
      moreover have "files (fst (snd out)) = files w2"
        using "4.IH"(3) [OF refl v [symmetric] Inr refl refl True s refl refl rest] .
      ultimately show ?thesis
        using w1 by simp
    qed
  qed
qed

lemma length_le_maxDepth: "(k, v) \<in> set fs \<Longrightarrow> length k \<le> maxDepth fs"
  unfolding maxDepth_def by (induction fs) auto

lemma wellFormed_key: "wellFormed fs \<Longrightarrow> (k, v) \<in> set fs \<Longrightarrow> list_all validName k"
  by (auto simp: wellFormed_def list_all_iff)

lemma fs_readdir_entries:
  assumes "fst (fs_readdir env w cur) = Inr entries"
  shows "\<exists>d. lookup_path env (files w) cur = Some d \<and> node_at (files w) d = Some Dir \<and>
           (\<forall>e \<in> set entries. \<exists>v. (d @ [name e], v) \<in> set (files w) \<and>
              (isDirectory e \<longrightarrow> node_at (files w) (d @ [name e]) = Some Dir))"
proof -
  obtain d where d: "lookup_path env (files w) cur = Some d" "node_at (files w) d = Some Dir"
    and es: "entries = remdups
                  (map (\<lambda>(k, v). \<lparr>name = last k, isDirectory = (v = Dir)\<rparr>)
                     (filter (\<lambda>(k, v). k \<noteq> [] \<and> butlast k = d \<and> map_of (files w) k = Some v)
                        (files w)))"
    using assms by (auto simp: fs_readdir_def split: option.splits if_splits)
  have "\<exists>v. (d @ [name e], v) \<in> set (files w) \<and>
              (isDirectory e \<longrightarrow> node_at (files w) (d @ [name e]) = Some Dir)"
    if "e \<in> set entries" for e
  proof -
    have "e \<in> (\<lambda>(k, v). \<lparr>name = last k, isDirectory = (v = Dir)\<rparr>) `
            {(k, v) \<in> set (files w). k \<noteq> [] \<and> butlast k = d \<and> map_of (files w) k = Some v}"
      using that unfolding es by (simp add: case_prod_unfold)
    then obtain k v where kv: "(k, v) \<in> set (files w)" "k \<noteq> []" "butlast k = d"
        "map_of (files w) k = Some v" "e = \<lparr>name = last k, isDirectory = (v = Dir)\<rparr>"
      by auto
    have nm: "name e = last k" and dir: "isDirectory e = (v = Dir)"
      using kv(5) by simp_all
    have k: "d @ [name e] = k"
      using kv(2,3) nm append_butlast_last_id [of k] by simp
    have "(d @ [name e], v) \<in> set (files w)"
      using kv(1) by (simp only: k)
    moreover have "node_at (files w) (d @ [name e]) = Some Dir" if "isDirectory e"
      using kv(4) that dir by (simp add: node_at_def k [symmetric])
    ultimately show ?thesis
      by blast
  qed
  then show ?thesis
    using d by blast
qed


lemma searchEntries_returns:
  assumes wf: "wellFormed fs"
    and deeper: "\<And>cur' w' results'. files w' = fs \<Longrightarrow> path_isAbsolute cur' \<Longrightarrow>
                   (\<And>d'. lookup_path env fs cur' = Some d' \<Longrightarrow> maxDepth fs < n + length d') \<Longrightarrow>
                   0 < n \<Longrightarrow>
                   \<exists>out. search n env config query basePath cur' w' results' = Some out"
    and cur: "path_isAbsolute cur" "lookup_path env fs cur = Some d" "node_at fs d = Some Dir"
    and bound: "maxDepth fs < Suc n + length d"
  shows "files w = fs \<Longrightarrow>
         (\<And>e. e \<in> set entries \<Longrightarrow> \<exists>v. (d @ [name e], v) \<in> set fs \<and>
              (isDirectory e \<longrightarrow> node_at fs (d @ [name e]) = Some Dir)) \<Longrightarrow>
         \<exists>out. searchEntries n env config query basePath cur entries w results = Some out"
proof (induction entries arbitrary: w results)
  case Nil
  show ?case by simp
next
  case (Cons entry entries)
  let ?fullPath = "path_join [cur, name entry]"
  obtain r w1 where v: "validatePath env config w ?fullPath = (r, w1)"
    by (cases "validatePath env config w ?fullPath")
  then have w1: "files w1 = fs"
    using validatePath_files [of env config w ?fullPath] Cons.prems(1) by simp
  have rest: "\<And>w' results'. files w' = fs \<Longrightarrow>
      \<exists>out. searchEntries n env config query basePath cur entries w' results' = Some out"
    using Cons.IH Cons.prems(2) by simp
  show ?case
  proof (cases r)
    case (Inl e)
    then show ?thesis
      using v rest [OF w1] by simp
  next
    case (Inr p)
    let ?results1 = "if endsWith (name entry) ''.md'' \<and> nameMatches env query (name entry)
                     then results @ [removeFirst ?fullPath basePath] else results"
    show ?thesis
    proof (cases "isDirectory entry")
      case False
      then show ?thesis
        using v Inr rest [OF w1] by (simp add: Let_def)
    next
      case True
      obtain vv where key: "(d @ [name entry], vv) \<in> set fs"
        and child: "node_at fs (d @ [name entry]) = Some Dir"
        using Cons.prems(2) [of entry] True by auto
      have valid: "validName (name entry)"
        using wellFormed_key [OF wf key] by simp
      have len: "length (d @ [name entry]) \<le> maxDepth fs"
        using length_le_maxDepth [OF key] .
      have abs: "path_isAbsolute ?fullPath"
        using cur(1) valid by (rule path_join_absolute)
      have look: "lookup_path env fs ?fullPath = Some (d @ [name entry])"
        using cur(1) valid cur(2,3) child by (rule lookup_path_child)
      have n: "0 < n"
        using len bound by simp
      have "\<exists>out. search n env config query basePath ?fullPath w1 ?results1 = Some out"
      proof (rule deeper [OF w1 abs _ n])
        fix d'
        assume "lookup_path env fs ?fullPath = Some d'"
        then have "d' = d @ [name entry]" using look by simp
        then show "maxDepth fs < n + length d'" using bound by simp
      qed
      then obtain r2 w2 results2 where
        s: "search n env config query basePath ?fullPath w1 ?results1 = Some (r2, w2, results2)"
        by (metis prod_cases3)
      have "files w2 = fs"
        using search_files(1) [OF s] w1 by simp
      from rest [OF this, of results2] show ?thesis
        using v Inr True s by (simp add: Let_def)
    qed
  qed
qed

lemma search_returns:
  assumes wf: "wellFormed fs"
  shows "files w = fs \<Longrightarrow> path_isAbsolute cur \<Longrightarrow>
         (\<And>d. lookup_path env fs cur = Some d \<Longrightarrow> maxDepth fs < depth + length d) \<Longrightarrow>
         0 < depth \<Longrightarrow>
         \<exists>out. search depth env config query basePath cur w results = Some out"
proof (induction depth arbitrary: cur w results)
  case 0
  then show ?case by simp
next
  case (Suc n)
  obtain r w1 where rd: "fs_readdir env w cur = (r, w1)"
    by (cases "fs_readdir env w cur")
  then have w1: "files w1 = fs"
    using fs_readdir_files [of env w cur] Suc.prems(1) by simp
  show ?case
  proof (cases r)
    case (Inl e)
    then show ?thesis using rd by simp
  next
    case (Inr entries)
    then have "fst (fs_readdir env w cur) = Inr entries"
      using rd by simp
    from fs_readdir_entries [OF this] obtain d where
      d: "lookup_path env fs cur = Some d" "node_at fs d = Some Dir"
      and es: "\<And>e. e \<in> set entries \<Longrightarrow> \<exists>v. (d @ [name e], v) \<in> set fs \<and>
                 (isDirectory e \<longrightarrow> node_at fs (d @ [name e]) = Some Dir)"
      using Suc.prems(1) by auto
    have "\<exists>out. searchEntries n env config query basePath cur entries w1 results = Some out"
      by (rule searchEntries_returns [OF wf Suc.IH Suc.prems(2) d Suc.prems(3) [OF d(1)] w1 es])
    then show ?thesis
      using rd Inr by simp
  qed
qed

lemma resolveLoop_absolute:
  "path_isAbsolute wd \<Longrightarrow> \<exists>r. resolveLoop (xs @ [wd]) acc = (r, True)"
  by (induction xs arbitrary: acc) (auto simp: path_isAbsolute_def split: list.splits)

lemma path_resolve_is_absolute: "path_isAbsolute wd \<Longrightarrow> path_isAbsolute (path_resolve wd args)"
  using resolveLoop_absolute [of wd "rev args" "[]"]
  by (auto simp: path_resolve_def path_isAbsolute_def)

lemma normalizePath_is_absolute: "path_isAbsolute p \<Longrightarrow> path_isAbsolute (normalizePath p)"
  by (auto simp: normalizePath_def path_normalize_def path_isAbsolute_def toLowerCase_def
        toLowerChar_def path_sep_def Let_def split: list.splits)

lemma searchNotes_returns:
  assumes "wellFormed (files w)" and "path_isAbsolute (cwd env)" and "maxDepth (files w) < depth"
  shows "\<exists>out. searchNotes depth env config w query = Some out"
proof -
  let ?dir = "vaultDirectories env config ! 0"
  have abs: "path_isAbsolute ?dir"
    using assms(2)
    by (simp add: vaultDirectories_def normalizePath_is_absolute path_resolve_is_absolute)
  have "\<exists>out. search depth env config query ?dir ?dir w [] = Some out"
    using search_returns [OF assms(1) refl abs] assms(3) by simp
  then show ?thesis
    by (auto simp: searchNotes_single_root split: prod.splits sum.splits)
qed


lemma search_depth_mono:
  "search depth env config query basePath currentPath w results = Some out \<Longrightarrow>
     depth \<le> depth' \<Longrightarrow>
     search depth' env config query basePath currentPath w results = Some out"
  "searchEntries depth env config query basePath currentPath entries w results = Some out \<Longrightarrow>
     depth \<le> depth' \<Longrightarrow>
     searchEntries depth' env config query basePath currentPath entries w results = Some out"
proof (induction depth env config query basePath currentPath w results
         and depth env config query basePath currentPath entries w results
         arbitrary: out depth' and out depth' rule: search_searchEntries.induct)
  case (1 env config query basePath currentPath w results)
  then show ?case by simp
next
  case (2 depth env config query basePath currentPath w results)
  obtain d where d: "depth' = Suc d" "depth \<le> d"
    using "2.prems"(2) by (cases depth') auto
  obtain r w1 where rd: "fs_readdir env w currentPath = (r, w1)"
    by (cases "fs_readdir env w currentPath")
  show ?case
  proof (cases r)
    case (Inl e)
    then show ?thesis using "2.prems"(1) rd d by simp
  next
    case (Inr entries)
    then show ?thesis
      using "2.IH" [OF rd [symmetric] Inr _ d(2)] "2.prems"(1) rd d(1) by simp
  qed
next
  case (3 depth env config query basePath currentPath w results)
  then show ?case by simp
next
  case (4 depth env config query basePath currentPath entry entries w results)
  let ?fullPath = "path_join [currentPath, name entry]"
  note le = "4.prems"(2)
  obtain r w1 where v: "validatePath env config w ?fullPath = (r, w1)"
    by (cases "validatePath env config w ?fullPath")
  show ?case
  proof (cases r)
    case (Inl e)
    then show ?thesis
      using "4.IH"(1) [OF refl v [symmetric] Inl _ le] "4.prems"(1) v by simp
  next
    case (Inr p)
    let ?results1 = "if endsWith (name entry) ''.md'' \<and> nameMatches env query (name entry)
                     then results @ [removeFirst ?fullPath basePath] else results"
    show ?thesis
    proof (cases "isDirectory entry")
      case False
      have "searchEntries depth env config query basePath currentPath entries w1 ?results1 = Some out"
        using "4.prems"(1) v Inr False by (simp add: Let_def)
      from "4.IH"(4) [OF refl v [symmetric] Inr refl refl False this le]
      show ?thesis using v Inr False by (simp add: Let_def)
    next
      case True
      obtain r2 w2 results2 where
        s: "search depth env config query basePath ?fullPath w1 ?results1 = Some (r2, w2, results2)"
        and rest: "searchEntries depth env config query basePath currentPath entries w2 results2 = Some out"
        using "4.prems"(1) v Inr True by (auto simp: Let_def split: option.splits)
      have s': "search depth' env config query basePath ?fullPath w1 ?results1 = Some (r2, w2, results2)"
        using "4.IH"(2) [OF refl v [symmetric] Inr refl refl True s le] .
      have "searchEntries depth' env config query basePath currentPath entries w2 results2 = Some out"
        using "4.IH"(3) [OF refl v [symmetric] Inr refl refl True s refl refl rest le] .
      then show ?thesis
        using v Inr True s' by (simp add: Let_def)
    qed
  qed
qed

lemma searchNotes_depth_mono:
  assumes "searchNotes depth env config w query = Some out" and "depth \<le> depth'"
  shows "searchNotes depth' env config w query = Some out"
proof -
  let ?dir = "vaultDirectories env config ! 0"
  obtain o1 where o1: "search depth env config query ?dir ?dir w [] = Some o1"
    using assms(1) by (auto simp: searchNotes_single_root split: option.splits)
  then have "search depth' env config query ?dir ?dir w [] = Some o1"
    using search_depth_mono(1) assms(2) by blast
  then show ?thesis
    using assms(1) o1 by (simp add: searchNotes_single_root)
qed

lemma searchNotes_fails_only_at_root:
  assumes "fst (fs_readdir env w0 (vaultDirectories env config ! 0)) = Inr listing \<and>
           searchNotes depth env config w0 query = Some out"
  shows "\<exists>found. fst out = Inr found"
proof (cases "search depth env config query (vaultDirectories env config ! 0)
                (vaultDirectories env config ! 0) w0 []")
  case None
  then show ?thesis
    using assms by (simp add: searchNotes_single_root)
next
  case (Some o1)
  then have "fst o1 = Inr ()"
    using search_fails_only_at_readdir assms by blast
  then show ?thesis
    using assms Some
    by (auto simp: searchNotes_single_root split: prod.splits sum.splits)
qed

section \<open>Skipping what cannot be searched\<close>

text \<open>
  Claim C10. At any point of the loop over a directory (whatever was found before is in
  \<open>results\<close>): an entry that \<open>validatePath\<close> denies adds nothing and the loop goes on
  with the entries after it; a directory entry whose \<open>readdir\<close> fails adds at most its
  own name and the loop goes on; the loop never fails and keeps what was found before;
  \<open>searchNotes\<close> does not fail when the vault directory itself can be listed, and
  on a well-formed file system it returns its results under every depth bound beyond the
  depth of the file system. In the example vault with \<open>a/ok.md\<close>,
  \<open>.hidden/secret.md\<close> and \<open>b/ok2.md\<close> the search returns \<open>/a/ok.md\<close> and
  \<open>/b/ok2.md\<close>.
\<close>

theorem search_entry_failure_is_local:
  assumes "fullPath = path_join [currentPath, name entry]"
    and "validatePath env config w fullPath = (r, w1)"
    and "results1 = (if endsWith (name entry) ''.md'' \<and> nameMatches env query (name entry)
                     then results @ [removeFirst fullPath basePath] else results)"
  shows "(\<forall>err. r = Inl err \<longrightarrow>
            searchEntries depth env config query basePath currentPath (entry # entries) w results =
            searchEntries depth env config query basePath currentPath entries w1 results) \<and>
         (\<forall>p err w2. r = Inr p \<and> isDirectory entry \<and> fs_readdir env w1 fullPath = (Inl err, w2) \<longrightarrow>
            searchEntries (Suc depth) env config query basePath currentPath (entry # entries) w results =
            searchEntries (Suc depth) env config query basePath currentPath entries w2 results1) \<and>
         (\<forall>out. searchEntries depth env config query basePath currentPath (entry # entries) w results =
                  Some out \<longrightarrow>
            fst out = Inr () \<and> prefix results (snd (snd out))) \<and>
         (\<forall>w0 listing out.
            fst (fs_readdir env w0 (vaultDirectories env config ! 0)) = Inr listing \<and>
            searchNotes depth env config w0 query = Some out \<longrightarrow>
            (\<exists>found. fst out = Inr found)) \<and>
         (\<forall>w0 listing.
            wellFormed (files w0) \<and> path_isAbsolute (cwd env) \<and> maxDepth (files w0) < depth \<and>
            fst (fs_readdir env w0 (vaultDirectories env config ! 0)) = Inr listing \<longrightarrow>
            (\<exists>found w'. \<forall>depth'. depth \<le> depth' \<longrightarrow>
               searchNotes depth' env config w0 query = Some (Inr found, w')))"
proof (intro conjI allI impI)
  fix err
  assume "r = Inl err"
  then show "searchEntries depth env config query basePath currentPath (entry # entries) w results =
             searchEntries depth env config query basePath currentPath entries w1 results"
    using assms(1,2) by simp
next
  fix p err w2
  assume "r = Inr p \<and> isDirectory entry \<and> fs_readdir env w1 fullPath = (Inl err, w2)"
  then show "searchEntries (Suc depth) env config query basePath currentPath (entry # entries) w results =
             searchEntries (Suc depth) env config query basePath currentPath entries w2 results1"
    using assms by (simp add: Let_def)
next
  fix out
  assume "searchEntries depth env config query basePath currentPath (entry # entries) w results = Some out"
  then show "fst out = Inr ()" and "prefix results (snd (snd out))"
    using searchEntries_sound(2) by blast+
next
  fix w0 listing out
  assume a: "fst (fs_readdir env w0 (vaultDirectories env config ! 0)) = Inr listing \<and>
             searchNotes depth env config w0 query = Some out"
  show "\<exists>found. fst out = Inr found"
    using a by (rule searchNotes_fails_only_at_root)
next
  fix w0 listing
  assume a: "wellFormed (files w0) \<and> path_isAbsolute (cwd env) \<and> maxDepth (files w0) < depth \<and>
             fst (fs_readdir env w0 (vaultDirectories env config ! 0)) = Inr listing"
  then obtain out where out: "searchNotes depth env config w0 query = Some out"
    using searchNotes_returns by blast
  then obtain found where "fst out = Inr found"
    using a searchNotes_fails_only_at_root by blast
  then have "searchNotes depth env config w0 query = Some (Inr found, snd out)"
    using out by (cases out) simp
  then have "\<forall>depth'. depth \<le> depth' \<longrightarrow>
               searchNotes depth' env config w0 query = Some (Inr found, snd out)"
    using searchNotes_depth_mono by blast
  then show "\<exists>found w'. \<forall>depth'. depth \<le> depth' \<longrightarrow>
               searchNotes depth' env config w0 query = Some (Inr found, w')"
    by blast
qed

theorem search_entry_failure_is_local_witness:
  "fst (fs_readdir example_env (start notes_fs) ''/vault'') =
     Inr [\<lparr>name = ''a'', isDirectory = True\<rparr>, \<lparr>name = ''.hidden'', isDirectory = True\<rparr>,
          \<lparr>name = ''b'', isDirectory = True\<rparr>] \<and>
   map_option (\<lambda>out. (fst out, snd (snd out)))
     (searchEntries 2 example_env example_config [] ''/vault'' ''/vault''
        [\<lparr>name = ''.hidden'', isDirectory = True\<rparr>, \<lparr>name = ''b'', isDirectory = True\<rparr>]
        (start notes_fs) [''/a/ok.md'']) =
     Some (Inr (), [''/a/ok.md'', ''/b/ok2.md'']) \<and>
   map_option (\<lambda>out. (fst out, snd (snd out)))
     (searchEntries 2 example_env example_config [] ''/vault'' ''/vault''
        [\<lparr>name = ''gone'', isDirectory = True\<rparr>, \<lparr>name = ''b'', isDirectory = True\<rparr>]
        (start notes_fs) [''/a/ok.md'']) =
     Some (Inr (), [''/a/ok.md'', ''/b/ok2.md'']) \<and>
   map_option fst (callTool 3 example_env example_config (start notes_fs) (SearchNotes [])) =
     Some (success (''/a/ok.md'' @ [CHR 0x0A] @ ''/b/ok2.md'')) \<and>
   wellFormed notes_fs \<and> path_isAbsolute (cwd example_env) \<and> maxDepth notes_fs < 4 \<and>
   (\<exists>found w'. \<forall>depth'. 4 \<le> depth' \<longrightarrow>
      searchNotes depth' example_env example_config (start notes_fs) [] = Some (Inr found, w'))"
proof -
  let ?hidden = "\<lparr>name = ''.hidden'', isDirectory = True\<rparr>"
  let ?gone = "\<lparr>name = ''gone'', isDirectory = True\<rparr>"
  let ?b = "\<lparr>name = ''b'', isDirectory = True\<rparr>"
  let ?w1 = "\<lparr>files = notes_fs, calls = [Realpath ''/vault/gone'', Realpath ''/vault'']\<rparr>"
  let ?w2 = "\<lparr>files = notes_fs,
              calls = [Realpath ''/vault/gone'', Realpath ''/vault'', Readdir ''/vault/gone'']\<rparr>"
  have listing: "fst (fs_readdir example_env (start notes_fs) ''/vault'') =
     Inr [\<lparr>name = ''a'', isDirectory = True\<rparr>, ?hidden, ?b]"
    by code_simp
  have h1: "''/vault/.hidden'' = path_join [''/vault'', name ?hidden]"
    by code_simp
  have h2: "validatePath example_env example_config (start notes_fs) ''/vault/.hidden'' =
              (Inl HiddenPathDenied, start notes_fs)"
    by code_simp
  have g1: "''/vault/gone'' = path_join [''/vault'', name ?gone]"
    by code_simp
  have g2: "validatePath example_env example_config (start notes_fs) ''/vault/gone'' =
              (Inr ''/vault/gone'', ?w1)"
    by code_simp
  have g3: "[''/a/ok.md''] =
              (if endsWith (name ?gone) ''.md'' \<and> nameMatches example_env [] (name ?gone)
               then [''/a/ok.md''] @ [removeFirst ''/vault/gone'' ''/vault''] else [''/a/ok.md''])"
    by code_simp
  have g4: "fs_readdir example_env ?w1 ''/vault/gone'' =
              (Inl (SystemError ''scandir'' ''/vault/gone''), ?w2)"
    by code_simp
  have rest1: "map_option (\<lambda>out. (fst out, snd (snd out)))
       (searchEntries 2 example_env example_config [] ''/vault'' ''/vault'' [?b]
          (start notes_fs) [''/a/ok.md'']) =
     Some (Inr (), [''/a/ok.md'', ''/b/ok2.md''])"
    by code_simp
  have rest2: "map_option (\<lambda>out. (fst out, snd (snd out)))
       (searchEntries 2 example_env example_config [] ''/vault'' ''/vault'' [?b]
          ?w2 [''/a/ok.md'']) =
     Some (Inr (), [''/a/ok.md'', ''/b/ok2.md''])"
    by code_simp
  have whole: "map_option fst
       (callTool 3 example_env example_config (start notes_fs) (SearchNotes [])) =
     Some (success (''/a/ok.md'' @ [CHR 0x0A] @ ''/b/ok2.md''))"
    by code_simp
  have skip1: "searchEntries 2 example_env example_config [] ''/vault'' ''/vault'' [?hidden, ?b]
          (start notes_fs) [''/a/ok.md''] =
        searchEntries 2 example_env example_config [] ''/vault'' ''/vault'' [?b]
          (start notes_fs) [''/a/ok.md'']"
    by (rule search_entry_failure_is_local [where query = "[]" and results = "[''/a/ok.md'']"
          and basePath = "''/vault''" and depth = 2 and entries = "[?b]", OF h1 h2 refl,
          THEN conjunct1, rule_format, OF refl])
  have two: "Suc 1 = (2::nat)"
    by simp
  have failed: "Inr ''/vault/gone'' = Inr ''/vault/gone'' \<and> isDirectory ?gone \<and>
      fs_readdir example_env ?w1 ''/vault/gone'' =
        (Inl (SystemError ''scandir'' ''/vault/gone''), ?w2)"
    using g4 by simp
  have skip2: "searchEntries 2 example_env example_config [] ''/vault'' ''/vault'' [?gone, ?b]
          (start notes_fs) [''/a/ok.md''] =
        searchEntries 2 example_env example_config [] ''/vault'' ''/vault'' [?b]
          ?w2 [''/a/ok.md'']"
    using search_entry_failure_is_local [where basePath = "''/vault''" and depth = 1
        and entries = "[?b]", OF g1 g2 g3, THEN conjunct2, THEN conjunct1, rule_format, OF failed]
    unfolding two .
  have part1: "map_option (\<lambda>out. (fst out, snd (snd out)))
       (searchEntries 2 example_env example_config [] ''/vault'' ''/vault'' [?hidden, ?b]
          (start notes_fs) [''/a/ok.md'']) =
     Some (Inr (), [''/a/ok.md'', ''/b/ok2.md''])"
    by (simp only: skip1 rest1)
  have part2: "map_option (\<lambda>out. (fst out, snd (snd out)))
       (searchEntries 2 example_env example_config [] ''/vault'' ''/vault'' [?gone, ?b]
          (start notes_fs) [''/a/ok.md'']) =
     Some (Inr (), [''/a/ok.md'', ''/b/ok2.md''])"
    by (simp only: skip2 rest2)
  have wf: "wellFormed notes_fs"
    by code_simp
  have wd: "path_isAbsolute (cwd example_env)"
    by code_simp
  have deep: "maxDepth notes_fs < 4"
    by code_simp
  have listing0: "fst (fs_readdir example_env (start notes_fs)
                         (vaultDirectories example_env example_config ! 0)) =
     Inr [\<lparr>name = ''a'', isDirectory = True\<rparr>, ?hidden, ?b]"
    by code_simp
  have pre: "wellFormed (files (start notes_fs)) \<and> path_isAbsolute (cwd example_env) \<and>
      maxDepth (files (start notes_fs)) < 4 \<and>
      fst (fs_readdir example_env (start notes_fs)
             (vaultDirectories example_env example_config ! 0)) =
        Inr [\<lparr>name = ''a'', isDirectory = True\<rparr>, ?hidden, ?b]"
    using wf wd deep listing0 by (simp add: start_def)
  have total: "\<exists>found w'. \<forall>depth'. 4 \<le> depth' \<longrightarrow>
      searchNotes depth' example_env example_config (start notes_fs) [] = Some (Inr found, w')"
    by (rule search_entry_failure_is_local [where query = "[]" and depth = 4, OF h1 h2 refl,
          THEN conjunct2, THEN conjunct2, THEN conjunct2, THEN conjunct2, rule_format, OF pre])
  show ?thesis
    by (intro conjI)
      (rule listing, rule part1, rule part2, rule whole, rule wf, rule wd, rule deep, rule total)
qed

section \<open>The result limit\<close>




section \<open>A vault with more notes than the limit\<close>

























section \<open>The response of \<open>search_notes\<close>\<close>










end
